theory Spec2Isabelle
  imports Main "HOL-Library.Word"
begin

section \<open>The memory model\<close>

text \<open>
  The map of \<^verbatim>\<open>Ordered_map_via_Avl.cpp\<close> is a pointer structure: every
  \<^verbatim>\<open>AVLNode\<close> lives on the free store and is linked to its children and to
  its parent by raw pointers. The embedding keeps this: a pointer is an
  \<open>addr option\<close> (\<open>None\<close> is \<^verbatim>\<open>NULL\<close>), and the free store is a partial map
  from addresses to node objects. The store and the allocation counter are kept in
  the record of the map, which owns all of its nodes.

  \<^verbatim>\<open>unsigned int avlSize\<close> is a 32-bit word (it wraps around); \<^verbatim>\<open>int height\<close>
  is an \<open>int\<close>: the heights that occur are bounded by the number of nodes on a
  path, so no overflow is modelled for them.
\<close>

type_synonym addr = nat

record ('k, 't) AVLNode =
  key :: 'k
  item :: 't
  left :: "addr option"
  right :: "addr option"
  parent :: "addr option"
  height :: int

type_synonym ('k, 't) store = "addr \<Rightarrow> ('k, 't) AVLNode option"

record ('k, 't) AVLMap =
  root :: "addr option"
  avlSize :: "32 word"
  heap :: "('k, 't) store"
  nextFree :: addr

text \<open>
  A computation either runs forever (\<open>None\<close>), stops with a failed \<^verbatim>\<open>assert\<close>
  or with the dereference of a pointer that is \<^verbatim>\<open>NULL\<close> or not allocated
  (undefined behaviour in C++, an error here), or returns a value. The error names
  the assertion that failed: the one of \<^verbatim>\<open>advance\<close>, \<^verbatim>\<open>remove\<close>, \<^verbatim>\<open>at\<close>,
  \<^verbatim>\<open>pluckNode\<close> or \<^verbatim>\<open>fixUp\<close>.
\<close>

datatype error =
  NullDeref | Assert_advance | Assert_remove | Assert_at | Assert_pluckNode | Assert_fixUp

type_synonym 'a comp = "(error + 'a) option"

definition ok :: "'a \<Rightarrow> 'a comp" where
  "ok x = Some (Inr x)"

definition fail :: "error \<Rightarrow> 'a comp" where
  "fail e = Some (Inl e)"

definition bnd :: "'a comp \<Rightarrow> ('a \<Rightarrow> 'b comp) \<Rightarrow> 'b comp" where
  "bnd c f = (case c of None \<Rightarrow> None | Some (Inl e) \<Rightarrow> Some (Inl e) | Some (Inr x) \<Rightarrow> f x)"

lemma bnd_mono [partial_function_mono]:
  assumes B: "mono_option B" and C: "\<And>y. mono_option (C y)"
  shows "mono_option (\<lambda>f. bnd (B f) (\<lambda>y. C y f))"
proof -
  have eq: "\<And>c g. bnd c g = Option.bind c (\<lambda>r. case r of Inl e \<Rightarrow> Some (Inl e) | Inr x \<Rightarrow> g x)"
    by (simp add: bnd_def split: option.splits sum.splits)
  have "mono_option (\<lambda>f. case r of Inl e \<Rightarrow> Some (Inl e) | Inr x \<Rightarrow> C x f)" for r
    by (cases r) (simp_all add: C option.const_mono)
  then show ?thesis
    unfolding eq by (rule bind_mono [OF B])
qed

text \<open>\<open>rd m p f\<close> is the read \<^verbatim>\<open>p->f\<close>, \<open>wr m p u\<close> the write to fields of \<^verbatim>\<open>*p\<close>.\<close>

definition rd :: "('k, 't) AVLMap \<Rightarrow> addr option \<Rightarrow> (('k, 't) AVLNode \<Rightarrow> 'a) \<Rightarrow> 'a comp" where
  "rd m p f = (case p of None \<Rightarrow> fail NullDeref
     | Some a \<Rightarrow> (case heap m a of None \<Rightarrow> fail NullDeref | Some n \<Rightarrow> ok (f n)))"

definition wr :: "('k, 't) AVLMap \<Rightarrow> addr option \<Rightarrow> (('k, 't) AVLNode \<Rightarrow> ('k, 't) AVLNode)
    \<Rightarrow> ('k, 't) AVLMap comp" where
  "wr m p u = (case p of None \<Rightarrow> fail NullDeref
     | Some a \<Rightarrow> (case heap m a of None \<Rightarrow> fail NullDeref
         | Some n \<Rightarrow> ok (m\<lparr>heap := (heap m)(a \<mapsto> u n)\<rparr>)))"

section \<open>AVLNode\<close>

text \<open>\<^verbatim>\<open>childHeights\<close>: \<open>lh = rh = -1\<close>, then the heights recorded in the children.\<close>

definition childHeights :: "('k, 't) AVLMap \<Rightarrow> addr option \<Rightarrow> (int \<times> int) comp" where
  "childHeights m this =
     bnd (rd m this left) (\<lambda>l.
     bnd (case l of None \<Rightarrow> ok (- 1) | Some _ \<Rightarrow> rd m l height) (\<lambda>lh.
     bnd (rd m this right) (\<lambda>r.
     bnd (case r of None \<Rightarrow> ok (- 1) | Some _ \<Rightarrow> rd m r height) (\<lambda>rh.
     ok (lh, rh)))))"

definition recalcHeight :: "('k, 't) AVLMap \<Rightarrow> addr option \<Rightarrow> ('k, 't) AVLMap comp" where
  "recalcHeight m this =
     bnd (childHeights m this) (\<lambda>(lh, rh).
     wr m this (\<lambda>n. n\<lparr>height := 1 + max lh rh\<rparr>))"

section \<open>AVLMap\<close>

definition AVLMap_new :: "('k, 't) AVLMap" where
  "AVLMap_new = \<lparr>root = None, avlSize = 0, heap = Map.empty, nextFree = 0\<rparr>"

text \<open>
  \<^verbatim>\<open>findNode\<close>: the loop \<^verbatim>\<open>while (node != NULL && node->key != key)\<close> with its two
  variables, then the choice between \<open>parent\<close> and \<open>node\<close>.
\<close>

partial_function (option) findNode_loop ::
  "('k::linorder, 't) AVLMap \<Rightarrow> 'k \<Rightarrow> addr option \<Rightarrow> addr option \<Rightarrow> (addr option \<times> addr option) comp"
where
  "findNode_loop m k node par =
     (case node of None \<Rightarrow> ok (node, par)
      | Some _ \<Rightarrow>
          bnd (rd m node key) (\<lambda>nk.
          if nk \<noteq> k then
            (if k < nk then bnd (rd m node left) (\<lambda>l. findNode_loop m k l node)
             else bnd (rd m node right) (\<lambda>r. findNode_loop m k r node))
          else ok (node, par)))"

declare findNode_loop.simps [code]

definition findNode :: "('k::linorder, 't) AVLMap \<Rightarrow> 'k \<Rightarrow> addr option comp" where
  "findNode m k =
     bnd (findNode_loop m k (root m) None) (\<lambda>(node, par).
     if node = None then ok par else ok node)"

text \<open>
  The two rotations. The \<^verbatim>\<open>assert(left != NULL)\<close> of the source names no local
  variable: in the scope of \<^verbatim>\<open>AVLMap\<close> the identifier \<^verbatim>\<open>left\<close> is the stream
  manipulator \<^verbatim>\<open>std::left\<close>, a function, which is never \<^verbatim>\<open>NULL\<close>. The assertion
  always passes and has no counterpart here; a \<^verbatim>\<open>NULL\<close> child is met by the
  dereference that follows.
\<close>

definition rotateRight :: "('k, 't) AVLMap \<Rightarrow> addr option \<Rightarrow> (('k, 't) AVLMap \<times> addr option) comp" where
  "rotateRight m node =
     bnd (rd m node left) (\<lambda>lchild.
     bnd (rd m node parent) (\<lambda>np.
     bnd (case np of
            Some _ \<Rightarrow>
              bnd (rd m np left) (\<lambda>pl.
              if node = pl then wr m np (\<lambda>n. n\<lparr>left := lchild\<rparr>)
              else wr m np (\<lambda>n. n\<lparr>right := lchild\<rparr>))
          | None \<Rightarrow> ok (m\<lparr>root := lchild\<rparr>)) (\<lambda>m1.
     bnd (rd m1 node parent) (\<lambda>np1.
     bnd (wr m1 lchild (\<lambda>n. n\<lparr>parent := np1\<rparr>)) (\<lambda>m2.
     bnd (wr m2 node (\<lambda>n. n\<lparr>parent := lchild\<rparr>)) (\<lambda>m3.
     bnd (rd m3 lchild right) (\<lambda>lr.
     bnd (case lr of Some _ \<Rightarrow> wr m3 lr (\<lambda>n. n\<lparr>parent := node\<rparr>) | None \<Rightarrow> ok m3) (\<lambda>m4.
     bnd (rd m4 lchild right) (\<lambda>lr4.
     bnd (wr m4 node (\<lambda>n. n\<lparr>left := lr4\<rparr>)) (\<lambda>m5.
     bnd (wr m5 lchild (\<lambda>n. n\<lparr>right := node\<rparr>)) (\<lambda>m6.
     bnd (recalcHeight m6 node) (\<lambda>m7.
     bnd (recalcHeight m7 lchild) (\<lambda>m8.
     ok (m8, lchild))))))))))))))"

definition rotateLeft :: "('k, 't) AVLMap \<Rightarrow> addr option \<Rightarrow> (('k, 't) AVLMap \<times> addr option) comp" where
  "rotateLeft m node =
     bnd (rd m node right) (\<lambda>rchild.
     bnd (rd m node parent) (\<lambda>np.
     bnd (case np of
            Some _ \<Rightarrow>
              bnd (rd m np left) (\<lambda>pl.
              if node = pl then wr m np (\<lambda>n. n\<lparr>left := rchild\<rparr>)
              else wr m np (\<lambda>n. n\<lparr>right := rchild\<rparr>))
          | None \<Rightarrow> ok (m\<lparr>root := rchild\<rparr>)) (\<lambda>m1.
     bnd (rd m1 node parent) (\<lambda>np1.
     bnd (wr m1 rchild (\<lambda>n. n\<lparr>parent := np1\<rparr>)) (\<lambda>m2.
     bnd (wr m2 node (\<lambda>n. n\<lparr>parent := rchild\<rparr>)) (\<lambda>m3.
     bnd (rd m3 rchild left) (\<lambda>rl.
     bnd (case rl of Some _ \<Rightarrow> wr m3 rl (\<lambda>n. n\<lparr>parent := node\<rparr>) | None \<Rightarrow> ok m3) (\<lambda>m4.
     bnd (rd m4 rchild left) (\<lambda>rl4.
     bnd (wr m4 node (\<lambda>n. n\<lparr>right := rl4\<rparr>)) (\<lambda>m5.
     bnd (wr m5 rchild (\<lambda>n. n\<lparr>left := node\<rparr>)) (\<lambda>m6.
     bnd (recalcHeight m6 node) (\<lambda>m7.
     bnd (recalcHeight m7 rchild) (\<lambda>m8.
     ok (m8, rchild))))))))))))))"

text \<open>
  \<^verbatim>\<open>fixUp\<close>: \<open>fixUp_body\<close> is the body of the loop \<^verbatim>\<open>while (node != NULL)\<close>,
  from the state and \<open>node\<close> to the state and the next \<open>node\<close>. The
  \<^verbatim>\<open>assert(abs(lh-rh) <= 2)\<close> is the branch \<open>fail Assert_fixUp\<close>.
\<close>

definition fixUp_body ::
  "('k, 't) AVLMap \<Rightarrow> addr option \<Rightarrow> (('k, 't) AVLMap \<times> addr option) comp" where
  "fixUp_body m node =
     bnd (recalcHeight m node) (\<lambda>m1.
     bnd (childHeights m1 node) (\<lambda>(lh, rh).
     if \<not> \<bar>lh - rh\<bar> \<le> 2 then fail Assert_fixUp
     else
       bnd (if lh = rh + 2 then
              bnd (rd m1 node left) (\<lambda>lchild.
              bnd (childHeights m1 lchild) (\<lambda>(llh, lrh).
              bnd (if llh < lrh then bnd (rotateLeft m1 lchild) (\<lambda>(m2, _). ok m2)
                   else ok m1) (\<lambda>m2.
              rotateRight m2 node)))
            else if lh + 2 = rh then
              bnd (rd m1 node right) (\<lambda>rchild.
              bnd (childHeights m1 rchild) (\<lambda>(rlh, rrh).
              bnd (if rlh > rrh then bnd (rotateRight m1 rchild) (\<lambda>(m2, _). ok m2)
                   else ok m1) (\<lambda>m2.
              rotateLeft m2 node)))
            else ok (m1, node)) (\<lambda>(m3, node').
       bnd (rd m3 node' parent) (\<lambda>np.
       ok (m3, np)))))"

partial_function (option) fixUp ::
  "('k, 't) AVLMap \<Rightarrow> addr option \<Rightarrow> ('k, 't) AVLMap comp"
where
  "fixUp m node =
     (case node of None \<Rightarrow> ok m
      | Some _ \<Rightarrow> bnd (fixUp_body m node) (\<lambda>(m', node'). fixUp m' node'))"

declare fixUp.simps [code]

text \<open>
  \<^verbatim>\<open>update\<close>. \<^verbatim>\<open>new AVLNode\<close> takes the next address of the allocation counter;
  \<^verbatim>\<open>new\<close> does not return \<^verbatim>\<open>NULL\<close>, so the \<^verbatim>\<open>assert(newNode != NULL)\<close>
  cannot fail.
\<close>

definition update :: "('k::linorder, 't) AVLMap \<Rightarrow> 'k \<Rightarrow> 't \<Rightarrow> ('k, 't) AVLMap comp" where
  "update m k v =
     bnd (findNode m k) (\<lambda>node.
     bnd (case node of None \<Rightarrow> ok True | Some _ \<Rightarrow> rd m node (\<lambda>n. key n \<noteq> k)) (\<lambda>absent.
     if absent then
       (let newNode = Some (nextFree m);
            m1 = m\<lparr>heap := (heap m)(nextFree m \<mapsto>
                     \<lparr>key = k, item = v, left = None, right = None, parent = node, height = 0\<rparr>),
                   nextFree := Suc (nextFree m)\<rparr>
        in
        bnd (case node of
               None \<Rightarrow> ok (m1\<lparr>root := newNode\<rparr>)
             | Some _ \<Rightarrow>
                 bnd (rd m1 node key) (\<lambda>nk.
                 if k < nk then wr m1 node (\<lambda>n. n\<lparr>left := newNode\<rparr>)
                 else wr m1 node (\<lambda>n. n\<lparr>right := newNode\<rparr>))) (\<lambda>m2.
        fixUp (m2\<lparr>avlSize := avlSize m2 + 1\<rparr>) newNode))
     else wr m node (\<lambda>n. n\<lparr>item := v\<rparr>)))"

text \<open>
  \<^verbatim>\<open>pluckNode\<close>. The node's child pointers are cleared before \<^verbatim>\<open>delete\<close>, so
  the destructor frees this one node only: its address leaves the store.
\<close>

definition pluckNode :: "('k, 't) AVLMap \<Rightarrow> addr option \<Rightarrow> ('k, 't) AVLMap comp" where
  "pluckNode m node =
     bnd (rd m node left) (\<lambda>nl.
     bnd (case nl of
            Some _ \<Rightarrow> bnd (rd m nl right) (\<lambda>cr. if cr = None then ok nl else fail Assert_pluckNode)
          | None \<Rightarrow> rd m node right) (\<lambda>child.
     bnd (rd m node parent) (\<lambda>np.
     bnd (case np of
            None \<Rightarrow> ok (m\<lparr>root := child\<rparr>)
          | Some _ \<Rightarrow>
              bnd (rd m np left) (\<lambda>pl.
              if pl = node then wr m np (\<lambda>n. n\<lparr>left := child\<rparr>)
              else wr m np (\<lambda>n. n\<lparr>right := child\<rparr>))) (\<lambda>m1.
     bnd (case child of
            Some _ \<Rightarrow> bnd (rd m1 node parent) (\<lambda>np1. wr m1 child (\<lambda>n. n\<lparr>parent := np1\<rparr>))
          | None \<Rightarrow> ok m1) (\<lambda>m2.
     bnd (wr m2 node (\<lambda>n. n\<lparr>left := None, right := None\<rparr>)) (\<lambda>m3.
     ok (m3\<lparr>heap := (heap m3)(the node := None), avlSize := avlSize m3 - 1\<rparr>)))))))"

text \<open>The loop of \<^verbatim>\<open>remove\<close> that walks to the maximum of the left subtree.\<close>

partial_function (option) pluck_loop ::
  "('k, 't) AVLMap \<Rightarrow> addr option \<Rightarrow> addr option \<Rightarrow> addr option comp"
where
  "pluck_loop m tmp pluck =
     (case tmp of None \<Rightarrow> ok pluck
      | Some _ \<Rightarrow> bnd (rd m tmp right) (\<lambda>r. pluck_loop m r tmp))"

declare pluck_loop.simps [code]

text \<open>
  \<^verbatim>\<open>remove\<close> in two parts: \<open>remove_find\<close> runs up to the call of
  \<^verbatim>\<open>pluckNode\<close> (the assertion, the choice of \<open>pluck\<close>, the copy of its key and
  item into \<open>node\<close>) and returns the state and the pointers \<open>pluck\<close> and
  \<open>pluckParent\<close>; \<open>remove\<close> then plucks and fixes up.
\<close>

definition remove_find ::
  "('k::linorder, 't) AVLMap \<Rightarrow> 'k \<Rightarrow> (('k, 't) AVLMap \<times> addr option \<times> addr option) comp" where
  "remove_find m k =
     bnd (findNode m k) (\<lambda>node.
     bnd (case node of None \<Rightarrow> ok False
          | Some _ \<Rightarrow> rd m node (\<lambda>n. \<not> (key n < k \<or> k < key n))) (\<lambda>present.
     if \<not> present then fail Assert_remove
     else
       bnd (rd m node left) (\<lambda>tmp.
       bnd (pluck_loop m tmp node) (\<lambda>pluck.
       bnd (rd m pluck key) (\<lambda>pk.
       bnd (wr m node (\<lambda>n. n\<lparr>key := pk\<rparr>)) (\<lambda>m1.
       bnd (rd m1 pluck item) (\<lambda>pv.
       bnd (wr m1 node (\<lambda>n. n\<lparr>item := pv\<rparr>)) (\<lambda>m2.
       bnd (rd m2 pluck parent) (\<lambda>pluckParent.
       ok (m2, pluck, pluckParent))))))))))"

definition remove :: "('k::linorder, 't) AVLMap \<Rightarrow> 'k \<Rightarrow> ('k, 't) AVLMap comp" where
  "remove m k =
     bnd (remove_find m k) (\<lambda>(m2, pluck, pluckParent).
     bnd (pluckNode m2 pluck) (\<lambda>m3.
     fixUp m3 pluckParent))"

definition hasKey :: "('k::linorder, 't) AVLMap \<Rightarrow> 'k \<Rightarrow> bool comp" where
  "hasKey m k =
     bnd (findNode m k) (\<lambda>node.
     case node of None \<Rightarrow> ok False | Some _ \<Rightarrow> rd m node (\<lambda>n. \<not> key n \<noteq> k))"

definition at :: "('k::linorder, 't) AVLMap \<Rightarrow> 'k \<Rightarrow> 't comp" where
  "at m k =
     bnd (findNode m k) (\<lambda>node.
     bnd (case node of None \<Rightarrow> ok False | Some _ \<Rightarrow> rd m node (\<lambda>n. \<not> key n \<noteq> k)) (\<lambda>present.
     if \<not> present then fail Assert_at else rd m node item))"

text \<open>
  \<^verbatim>\<open>operator[]\<close> returns a reference to the item of a node: here the pointer to
  that node, together with the state. \<open>dflt\<close> stands for the default-constructed
  item \<^verbatim>\<open>T()\<close>. A reference is read with \<open>rd m p item\<close> and assigned with
  \<open>assign\<close> (the same holds for \<^verbatim>\<open>iter.item()\<close>).
\<close>

definition index :: "'t \<Rightarrow> ('k::linorder, 't) AVLMap \<Rightarrow> 'k \<Rightarrow> (('k, 't) AVLMap \<times> addr option) comp" where
  "index dflt m k =
     bnd (hasKey m k) (\<lambda>b.
     bnd (if \<not> b then update m k dflt else ok m) (\<lambda>m1.
     bnd (findNode m1 k) (\<lambda>node.
     bnd (rd m1 node item) (\<lambda>_.
     ok (m1, node)))))"

definition assign :: "('k, 't) AVLMap \<Rightarrow> addr option \<Rightarrow> 't \<Rightarrow> ('k, 't) AVLMap comp" where
  "assign m p v = wr m p (\<lambda>n. n\<lparr>item := v\<rparr>)"

definition size_avl :: "('k, 't) AVLMap \<Rightarrow> 32 word" where
  "size_avl m = avlSize m"

section \<open>AVLIterator\<close>

text \<open>An iterator is its \<open>node\<close> pointer; \<open>None\<close> is the end iterator.\<close>

partial_function (option) leftmost ::
  "('k, 't) AVLMap \<Rightarrow> addr option \<Rightarrow> addr option comp"
where
  "leftmost m node =
     bnd (rd m node left) (\<lambda>l.
     case l of Some _ \<Rightarrow> leftmost m l | None \<Rightarrow> ok node)"

declare leftmost.simps [code]

definition AVLIterator :: "('k, 't) AVLMap \<Rightarrow> addr option \<Rightarrow> addr option comp" where
  "AVLIterator m rt = (case rt of None \<Rightarrow> ok None | Some _ \<Rightarrow> leftmost m rt)"

definition begin_avl :: "('k, 't) AVLMap \<Rightarrow> addr option comp" where
  "begin_avl m = AVLIterator m (root m)"

definition end_avl :: "('k, 't) AVLMap \<Rightarrow> addr option comp" where
  "end_avl m = AVLIterator m None"

text \<open>The \<^verbatim>\<open>do ... while\<close> of \<^verbatim>\<open>advance\<close> that climbs the parent pointers.\<close>

partial_function (option) climb ::
  "('k, 't) AVLMap \<Rightarrow> addr option \<Rightarrow> addr option comp"
where
  "climb m node =
     bnd (rd m node parent) (\<lambda>p.
     case p of None \<Rightarrow> ok None
     | Some _ \<Rightarrow> bnd (rd m p right) (\<lambda>pr. if pr = node then climb m p else ok p))"

declare climb.simps [code]

definition advance :: "('k, 't) AVLMap \<Rightarrow> addr option \<Rightarrow> addr option comp" where
  "advance m node =
     (case node of None \<Rightarrow> fail Assert_advance
      | Some _ \<Rightarrow>
          bnd (rd m node right) (\<lambda>r.
          case r of Some _ \<Rightarrow> leftmost m r | None \<Rightarrow> climb m node))"

text \<open>
  The traversal of \<^verbatim>\<open>printTree\<close>:
  \<^verbatim>\<open>for (iter = tree.begin(); iter != tree.end(); ++iter)\<close>, collecting
  \<^verbatim>\<open>iter.key()\<close> and \<^verbatim>\<open>iter.item()\<close>.
\<close>

partial_function (option) traverse_from ::
  "('k, 't) AVLMap \<Rightarrow> addr option \<Rightarrow> ('k \<times> 't) list comp"
where
  "traverse_from m it =
     bnd (end_avl m) (\<lambda>e.
     if it = e then ok []
     else
       bnd (rd m it key) (\<lambda>k.
       bnd (rd m it item) (\<lambda>v.
       bnd (advance m it) (\<lambda>it'.
       bnd (traverse_from m it') (\<lambda>kvs.
       ok ((k, v) # kvs))))))"

declare traverse_from.simps [code]

definition traverse :: "('k, 't) AVLMap \<Rightarrow> ('k \<times> 't) list comp" where
  "traverse m = bnd (begin_avl m) (traverse_from m)"

section \<open>The tree that a store represents\<close>

text \<open>
  The properties of the map are proved on trees. A store and a root pointer represent a
  tree when the store holds exactly the nodes of the tree, every node pointing to the
  roots of its subtrees and to its parent. Loops that walk down or climb up the tree are
  followed with a zipper: a subtree in focus and the list of frames above it.
\<close>

text \<open>A tree with, at every node, its address, key, item and recorded height.\<close>

datatype ('k, 't) tr = Lf | Nd "('k, 't) tr" addr 'k 't int "('k, 't) tr"

datatype dir = DL | DR

text \<open>A frame is a node with one child missing: the direction of the hole, the node's data and the sibling subtree. A list of frames, innermost first, is the path from a subtree up to the root.\<close>

datatype ('k, 't) frame = Fr dir addr 'k 't int "('k, 't) tr"

fun raddr :: "('k, 't) tr \<Rightarrow> addr option" where
  "raddr Lf = None"
| "raddr (Nd l a k v h r) = Some a"

fun ht :: "('k, 't) tr \<Rightarrow> int" where
  "ht Lf = - 1"
| "ht (Nd l a k v h r) = h"

fun lft :: "('k, 't) tr \<Rightarrow> ('k, 't) tr" where
  "lft Lf = Lf"
| "lft (Nd l a k v h r) = l"

fun rgt :: "('k, 't) tr \<Rightarrow> ('k, 't) tr" where
  "rgt Lf = Lf"
| "rgt (Nd l a k v h r) = r"

fun addrs :: "('k, 't) tr \<Rightarrow> addr set" where
  "addrs Lf = {}"
| "addrs (Nd l a k v h r) = insert a (addrs l \<union> addrs r)"

text \<open>All addresses of a tree are different.\<close>

fun dist :: "('k, 't) tr \<Rightarrow> bool" where
  "dist Lf = True"
| "dist (Nd l a k v h r) =
     (a \<notin> addrs l \<and> a \<notin> addrs r \<and> addrs l \<inter> addrs r = {} \<and> dist l \<and> dist r)"

text \<open>The store that holds exactly the nodes of a tree whose root has parent pointer \<open>p\<close>.\<close>

fun heap_of :: "('k, 't) tr \<Rightarrow> addr option \<Rightarrow> ('k, 't) store" where
  "heap_of Lf p = Map.empty"
| "heap_of (Nd l a k v h r) p =
     (heap_of l (Some a) ++ heap_of r (Some a))(a \<mapsto>
        \<lparr>key = k, item = v, left = raddr l, right = raddr r, parent = p, height = h\<rparr>)"

fun fill :: "('k, 't) frame \<Rightarrow> ('k, 't) tr \<Rightarrow> ('k, 't) tr" where
  "fill (Fr DL a k v h s) t = Nd t a k v h s"
| "fill (Fr DR a k v h s) t = Nd s a k v h t"

fun plug :: "('k, 't) frame list \<Rightarrow> ('k, 't) tr \<Rightarrow> ('k, 't) tr" where
  "plug [] t = t"
| "plug (f # c) t = plug c (fill f t)"

fun faddr :: "('k, 't) frame \<Rightarrow> addr" where
  "faddr (Fr d a k v h s) = a"

fun cpar :: "('k, 't) frame list \<Rightarrow> addr option" where
  "cpar [] = None"
| "cpar (f # c) = Some (faddr f)"

fun croot :: "('k, 't) frame list \<Rightarrow> addr option \<Rightarrow> addr option" where
  "croot [] y = y"
| "croot (f # c) y = croot c (Some (faddr f))"

fun fsib :: "('k, 't) frame \<Rightarrow> ('k, 't) tr" where
  "fsib (Fr d a k v h s) = s"

fun fcell :: "('k, 't) frame \<Rightarrow> addr option \<Rightarrow> addr option \<Rightarrow> ('k, 't) AVLNode" where
  "fcell (Fr DL a k v h s) y p =
     \<lparr>key = k, item = v, left = y, right = raddr s, parent = p, height = h\<rparr>"
| "fcell (Fr DR a k v h s) y p =
     \<lparr>key = k, item = v, left = raddr s, right = y, parent = p, height = h\<rparr>"

fun caddrs :: "('k, 't) frame list \<Rightarrow> addr set" where
  "caddrs [] = {}"
| "caddrs (f # c) = insert (faddr f) (addrs (fsib f) \<union> caddrs c)"

fun cdist :: "('k, 't) frame list \<Rightarrow> bool" where
  "cdist [] = True"
| "cdist (f # c) =
     (faddr f \<notin> addrs (fsib f) \<and> faddr f \<notin> caddrs c \<and> addrs (fsib f) \<inter> caddrs c = {} \<and>
      dist (fsib f) \<and> cdist c)"

definition distz :: "('k, 't) frame list \<Rightarrow> ('k, 't) tr \<Rightarrow> bool" where
  "distz c t \<longleftrightarrow> dist t \<and> cdist c \<and> addrs t \<inter> caddrs c = {}"

text \<open>The store that holds the nodes of a context whose hole is filled by the pointer \<open>y\<close>.\<close>

fun cheap :: "('k, 't) frame list \<Rightarrow> addr option \<Rightarrow> ('k, 't) store" where
  "cheap [] y = Map.empty"
| "cheap (f # c) y =
     (cheap c (Some (faddr f)) ++ heap_of (fsib f) (Some (faddr f)))(faddr f \<mapsto>
        fcell f y (cpar c))"

text \<open>The map whose store holds the tree \<open>t\<close>; \<open>stz\<close> is the same map seen from the subtree \<open>t\<close> under the context \<open>c\<close>.\<close>

definition st :: "('k, 't) tr \<Rightarrow> 32 word \<Rightarrow> addr \<Rightarrow> ('k, 't) AVLMap" where
  "st t n nf = \<lparr>root = raddr t, avlSize = n, heap = heap_of t None, nextFree = nf\<rparr>"

definition stz :: "('k, 't) frame list \<Rightarrow> ('k, 't) tr \<Rightarrow> 32 word \<Rightarrow> addr \<Rightarrow> ('k, 't) AVLMap" where
  "stz c t n nf = \<lparr>root = croot c (raddr t), avlSize = n,
     heap = cheap c (raddr t) ++ heap_of t (cpar c), nextFree = nf\<rparr>"

text \<open>The functions on trees that the loops and rotations of the source compute.\<close>

fun recalc :: "('k, 't) tr \<Rightarrow> ('k, 't) tr" where
  "recalc Lf = Lf"
| "recalc (Nd l a k v h r) = Nd l a k v (1 + max (ht l) (ht r)) r"

fun rotR :: "('k, 't) tr \<Rightarrow> ('k, 't) tr" where
  "rotR (Nd (Nd ll b kb vb hb lr) a ka va ha r) =
     recalc (Nd ll b kb vb hb (recalc (Nd lr a ka va ha r)))"
| "rotR t = t"

fun rotL :: "('k, 't) tr \<Rightarrow> ('k, 't) tr" where
  "rotL (Nd l a ka va ha (Nd rl b kb vb hb rr)) =
     recalc (Nd (recalc (Nd l a ka va ha rl)) b kb vb hb rr)"
| "rotL t = t"

text \<open>One round of the loop of \<^verbatim>\<open>fixUp\<close> at the root of \<open>t\<close>; \<open>reb_ok\<close> says that its assertion holds and that the children it rotates exist.\<close>

definition rebal :: "('k, 't) tr \<Rightarrow> ('k, 't) tr" where
  "rebal t = (case recalc t of Lf \<Rightarrow> Lf
     | Nd l a k v h r \<Rightarrow>
         if ht l = ht r + 2 then
           rotR (Nd (if ht (lft l) < ht (rgt l) then rotL l else l) a k v h r)
         else if ht l + 2 = ht r then
           rotL (Nd l a k v h (if ht (lft r) > ht (rgt r) then rotR r else r))
         else Nd l a k v h r)"

definition reb_ok :: "('k, 't) tr \<Rightarrow> bool" where
  "reb_ok t = (case t of Lf \<Rightarrow> False
     | Nd l a k v h r \<Rightarrow>
         \<bar>ht l - ht r\<bar> \<le> 2 \<and>
         (ht l = ht r + 2 \<longrightarrow> l \<noteq> Lf \<and> (ht (lft l) < ht (rgt l) \<longrightarrow> rgt l \<noteq> Lf)) \<and>
         (ht l + 2 = ht r \<longrightarrow> r \<noteq> Lf \<and> (ht (lft r) > ht (rgt r) \<longrightarrow> lft r \<noteq> Lf)))"

fun fixUp_z :: "('k, 't) frame list \<Rightarrow> ('k, 't) tr \<Rightarrow> ('k, 't) tr" where
  "fixUp_z [] t = rebal t"
| "fixUp_z (f # c) t = fixUp_z c (fill f (rebal t))"

fun fix_ok :: "('k, 't) frame list \<Rightarrow> ('k, 't) tr \<Rightarrow> bool" where
  "fix_ok [] t = reb_ok t"
| "fix_ok (f # c) t = (reb_ok t \<and> fix_ok c (fill f (rebal t)))"

text \<open>The descent of \<^verbatim>\<open>findNode\<close>, keeping the path.\<close>

fun locate :: "'k::linorder \<Rightarrow> ('k, 't) frame list \<Rightarrow> ('k, 't) tr \<Rightarrow> ('k, 't) frame list \<times> ('k, 't) tr" where
  "locate x c Lf = (c, Lf)"
| "locate x c (Nd l a k v h r) =
     (if k \<noteq> x then
        (if x < k then locate x (Fr DL a k v h r # c) l else locate x (Fr DR a k v h l # c) r)
      else (c, Nd l a k v h r))"

fun fkey :: "('k, 't) frame \<Rightarrow> 'k" where
  "fkey (Fr d a k v h s) = k"

fun fdir :: "('k, 't) frame \<Rightarrow> dir" where
  "fdir (Fr d a k v h s) = d"

fun rkey :: "('k, 't) tr \<Rightarrow> 'k option" where
  "rkey Lf = None"
| "rkey (Nd l a k v h r) = Some k"

fun ritem :: "('k, 't) tr \<Rightarrow> 't option" where
  "ritem Lf = None"
| "ritem (Nd l a k v h r) = Some v"

text \<open>\<^verbatim>\<open>update\<close> on trees; \<open>nf\<close> is the address of the new node.\<close>

definition upd_t :: "addr \<Rightarrow> 'k::linorder \<Rightarrow> 't \<Rightarrow> ('k, 't) tr \<Rightarrow> ('k, 't) tr" where
  "upd_t nf k v t = (case locate k [] t of
       (c, Lf) \<Rightarrow> fixUp_z c (Nd Lf nf k v 0 Lf)
     | (c, Nd l a k' v' h r) \<Rightarrow> plug c (Nd l a k' v h r))"

definition cstep :: "'k::linorder \<Rightarrow> ('k, 't) frame \<Rightarrow> bool" where
  "cstep x f \<longleftrightarrow> fkey f \<noteq> x \<and> (x < fkey f \<longleftrightarrow> fdir f = DL)"

text \<open>The walk of \<^verbatim>\<open>remove\<close> down the right spine.\<close>

fun rmost :: "('k, 't) frame list \<Rightarrow> ('k, 't) tr \<Rightarrow> ('k, 't) frame list \<times> ('k, 't) tr" where
  "rmost c Lf = (c, Lf)"
| "rmost c (Nd l a k v h Lf) = (c, Nd l a k v h Lf)"
| "rmost c (Nd l a k v h (Nd rl b kb vb hb rr)) =
     rmost (Fr DR a k v h l # c) (Nd rl b kb vb hb rr)"

fun fix_hole :: "('k, 't) frame list \<Rightarrow> ('k, 't) tr \<Rightarrow> ('k, 't) tr" where
  "fix_hole [] t = t"
| "fix_hole (f # c) t = fixUp_z c (fill f t)"

fun fix_hole_ok :: "('k, 't) frame list \<Rightarrow> ('k, 't) tr \<Rightarrow> bool" where
  "fix_hole_ok [] t = True"
| "fix_hole_ok (f # c) t = fix_ok c (fill f t)"

text \<open>The node that \<^verbatim>\<open>remove\<close> plucks, with its path, after its key and item have been copied.\<close>

definition pluck_z :: "'k::linorder \<Rightarrow> ('k, 't) tr \<Rightarrow> ('k, 't) frame list \<times> ('k, 't) tr" where
  "pluck_z k t = (case locate k [] t of
       (c, Lf) \<Rightarrow> (c, Lf)
     | (c, Nd l a k' v h r) \<Rightarrow>
         (case snd (rmost [] l) of
            Lf \<Rightarrow> (c, Nd l a k' v h r)
          | Nd pl p kp vp hp pr \<Rightarrow> rmost (Fr DL a kp vp h r # c) l))"

text \<open>\<^verbatim>\<open>remove\<close> on trees.\<close>

definition rem_t :: "'k::linorder \<Rightarrow> ('k, 't) tr \<Rightarrow> ('k, 't) tr" where
  "rem_t k t = (case pluck_z k t of
       (cp, Lf) \<Rightarrow> t
     | (cp, Nd pl p kp vp hp pr) \<Rightarrow> fix_hole cp (if pl = Lf then pr else pl))"

text \<open>The walk to the leftmost node, the climb of \<^verbatim>\<open>advance\<close> and its result.\<close>

fun lmost :: "('k, 't) frame list \<Rightarrow> ('k, 't) tr \<Rightarrow> ('k, 't) frame list \<times> ('k, 't) tr" where
  "lmost c Lf = (c, Lf)"
| "lmost c (Nd Lf a k v h r) = (c, Nd Lf a k v h r)"
| "lmost c (Nd (Nd ll b kb vb hb lr) a k v h r) =
     lmost (Fr DL a k v h r # c) (Nd ll b kb vb hb lr)"

fun zclimb :: "('k, 't) frame list \<Rightarrow> ('k, 't) tr \<Rightarrow> (('k, 't) frame list \<times> ('k, 't) tr) option" where
  "zclimb [] t = None"
| "zclimb (Fr DL a k v h s # c) t = Some (c, Nd t a k v h s)"
| "zclimb (Fr DR a k v h s # c) t = zclimb c (Nd s a k v h t)"

fun znext :: "('k, 't) frame list \<Rightarrow> ('k, 't) tr \<Rightarrow> (('k, 't) frame list \<times> ('k, 't) tr) option" where
  "znext c Lf = None"
| "znext c (Nd l a k v h Lf) = zclimb c (Nd l a k v h Lf)"
| "znext c (Nd l a k v h (Nd rl b kb vb hb rr)) =
     Some (lmost (Fr DR a k v h l # c) (Nd rl b kb vb hb rr))"

fun zaddr :: "(('k, 't) frame list \<times> ('k, 't) tr) option \<Rightarrow> addr option" where
  "zaddr None = None"
| "zaddr (Some (c, t)) = raddr t"

text \<open>The entries of a tree in order, and those of a context to the left and to the right of its hole.\<close>

fun entries :: "('k, 't) tr \<Rightarrow> ('k \<times> 't) list" where
  "entries Lf = []"
| "entries (Nd l a k v h r) = entries l @ (k, v) # entries r"

fun cleft :: "('k, 't) frame list \<Rightarrow> ('k \<times> 't) list" where
  "cleft [] = []"
| "cleft (Fr DL a k v h s # c) = cleft c"
| "cleft (Fr DR a k v h s # c) = cleft c @ entries s @ [(k, v)]"

fun cright :: "('k, 't) frame list \<Rightarrow> ('k \<times> 't) list" where
  "cright [] = []"
| "cright (Fr DL a k v h s # c) = (k, v) # entries s @ cright c"
| "cright (Fr DR a k v h s # c) = cright c"

text \<open>Balance with correct recorded heights; for a context, given the height of what fills the hole.\<close>

fun avl :: "('k, 't) tr \<Rightarrow> bool" where
  "avl Lf = True"
| "avl (Nd l a k v h r) = (\<bar>ht l - ht r\<bar> \<le> 1 \<and> h = 1 + max (ht l) (ht r) \<and> avl l \<and> avl r)"

fun cavl :: "('k, 't) frame list \<Rightarrow> int \<Rightarrow> bool" where
  "cavl [] h0 = True"
| "cavl (Fr d a k v h s # c) h0 =
     (avl s \<and> \<bar>h0 - ht s\<bar> \<le> 1 \<and> h = 1 + max h0 (ht s) \<and> cavl c h)"

text \<open>The keys are strictly ascending in order.\<close>

definition bst :: "('k::linorder, 't) tr \<Rightarrow> bool" where
  "bst t \<longleftrightarrow> sorted_wrt (<) (map fst (entries t))"

definition lt_all :: "('k::linorder \<times> 't) list \<Rightarrow> 'k \<Rightarrow> bool" where
  "lt_all A x \<longleftrightarrow> (\<forall>k \<in> fst ` set A. k < x)"

definition gt_all :: "('k::linorder \<times> 't) list \<Rightarrow> 'k \<Rightarrow> bool" where
  "gt_all B x \<longleftrightarrow> (\<forall>k \<in> fst ` set B. x < k)"

text \<open>The entries from the node in focus to the end.\<close>

fun rest :: "('k, 't) frame list \<Rightarrow> ('k, 't) tr \<Rightarrow> ('k \<times> 't) list" where
  "rest c Lf = []"
| "rest c (Nd l a k v h r) = (k, v) # entries r @ cright c"

text \<open>The finite map a tree stands for, and the invariant of the trees and maps that occur.\<close>

definition amap :: "('k, 't) tr \<Rightarrow> 'k \<Rightarrow> 't option" where
  "amap t = map_of (entries t)"

definition tinv :: "('k::linorder, 't) tr \<Rightarrow> addr \<Rightarrow> bool" where
  "tinv t nf \<longleftrightarrow> dist t \<and> (\<forall>a \<in> addrs t. a < nf) \<and> avl t \<and> bst t"

definition stc :: "('k, 't) tr \<Rightarrow> addr \<Rightarrow> ('k, 't) AVLMap" where
  "stc t nf = st t (of_nat (length (entries t))) nf"

definition map_inv :: "('k::linorder, 't) AVLMap \<Rightarrow> bool" where
  "map_inv m \<longleftrightarrow> (\<exists>t nf. m = stc t nf \<and> tinv t nf)"

text \<open>The maps reachable from the empty map by the mutating operations: \<^verbatim>\<open>update\<close>, \<^verbatim>\<open>remove\<close>, \<^verbatim>\<open>operator[]\<close>, and assignment through a reference or iterator.\<close>

inductive reachable :: "('k::linorder, 't) AVLMap \<Rightarrow> bool" where
  init: "reachable AVLMap_new"
| upd: "reachable m \<Longrightarrow> update m k v = ok m' \<Longrightarrow> reachable m'"
| rem: "reachable m \<Longrightarrow> remove m k = ok m' \<Longrightarrow> reachable m'"
| idx: "reachable m \<Longrightarrow> index d m k = ok (m', p) \<Longrightarrow> reachable m'"
| asg: "reachable m \<Longrightarrow> assign m p v = ok m' \<Longrightarrow> reachable m'"

definition represents :: "('k, 't) AVLMap \<Rightarrow> ('k, 't) tr \<Rightarrow> bool" where
  "represents m t \<longleftrightarrow> root m = raddr t \<and> heap m = heap_of t None \<and> dist t"

fun hgt :: "('k, 't) tr \<Rightarrow> int" where
  "hgt Lf = - 1"
| "hgt (Nd l a k v h r) = 1 + max (hgt l) (hgt r)"

fun balanced :: "('k, 't) tr \<Rightarrow> bool" where
  "balanced Lf = True"
| "balanced (Nd l a k v h r) =
     (\<bar>hgt l - hgt r\<bar> \<le> 1 \<and> h = 1 + max (hgt l) (hgt r) \<and> balanced l \<and> balanced r)"

fun ordered :: "('k::linorder, 't) tr \<Rightarrow> bool" where
  "ordered Lf = True"
| "ordered (Nd l a k v h r) =
     ((\<forall>x \<in> set (map fst (entries l)). x < k) \<and> (\<forall>x \<in> set (map fst (entries r)). k < x) \<and>
      ordered l \<and> ordered r)"

definition example_tree :: "(nat, nat) tr" where
  "example_tree = Nd (Nd Lf 0 1 10 0 Lf) 1 2 20 1 (Nd Lf 2 3 30 0 Lf)"

definition example_map :: "(nat, nat) AVLMap" where
  "example_map = stc example_tree 3"

section \<open>The operations on trees and on stores\<close>

subsection \<open>Stores of trees and of contexts\<close>

lemma map_add_app: "(m1 ++ m2) x = (if x \<in> dom m2 then m2 x else m1 x)"
  by (auto simp: map_add_def split: option.splits)

lemma dom_heap_of [simp]: "dom (heap_of t p) = addrs t"
  by (induction t arbitrary: p) auto

lemma dom_cheap [simp]: "dom (cheap c y) = caddrs c"
proof (induction c arbitrary: y)
  case Nil
  show ?case by simp
next
  case (Cons f c)
  have "dom (cheap (f # c) y) = insert (faddr f) (dom (cheap c (Some (faddr f))) \<union> dom (heap_of (fsib f) (Some (faddr f))))"
    unfolding cheap.simps dom_fun_upd dom_map_add by auto
  also have "\<dots> = caddrs (f # c)"
    by (simp add: Cons Un_commute)
  finally show ?case .
qed

lemma raddr_fill [simp]: "raddr (fill f t) = Some (faddr f)"
  by (cases "(f, t)" rule: fill.cases) auto

lemma raddr_plug [simp]: "raddr (plug c t) = croot c (raddr t)"
  by (induction c arbitrary: t) auto

lemma raddr_in_addrs: "raddr t = Some a \<Longrightarrow> a \<in> addrs t"
  by (cases t) auto

lemma heap_of_root: "heap_of (Nd l a k v h r) p a =
   Some \<lparr>key = k, item = v, left = raddr l, right = raddr r, parent = p, height = h\<rparr>"
  by simp

lemma heap_of_parent: "x \<noteq> a \<Longrightarrow> heap_of (Nd l a k v h r) p x = heap_of (Nd l a k v h r) p' x"
  by simp

lemma heap_of_parent': "raddr t \<noteq> Some x \<Longrightarrow> heap_of t p x = heap_of t p' x"
  by (cases t) auto

lemma cheap_hole': "cpar c \<noteq> Some x \<Longrightarrow> cheap c y x = cheap c y' x"
  by (cases "(c, y)" rule: cheap.cases) auto

lemma addrs_fill: "addrs (fill f t) = insert (faddr f) (addrs t \<union> addrs (fsib f))"
  by (cases "(f, t)" rule: fill.cases) auto

lemma distz_Cons: "distz (f # c) t \<longleftrightarrow> distz c (fill f t)"
  by (cases "(f, t)" rule: fill.cases) (auto simp: distz_def)

lemma dist_plug: "dist (plug c t) \<longleftrightarrow> distz c t"
proof (induction c arbitrary: t)
  case Nil
  show ?case by (simp add: distz_def)
next
  case (Cons f c)
  then show ?case by (simp add: distz_Cons)
qed

lemma addrs_plug: "addrs (plug c t) = addrs t \<union> caddrs c"
proof (induction c arbitrary: t)
  case Nil
  show ?case by simp
next
  case (Cons f c)
  show ?case by (cases "(f, t)" rule: fill.cases) (auto simp: Cons)
qed

lemma heap_of_fill:
  "dist (fill f t) \<Longrightarrow> cheap c (Some (faddr f)) ++ heap_of (fill f t) (cpar c)
     = cheap (f # c) (raddr t) ++ heap_of t (Some (faddr f))"
  by (cases "(f, t)" rule: fill.cases) (auto simp: fun_eq_iff map_add_app)

lemma stz_refocus: "dist (fill f t) \<Longrightarrow> stz (f # c) t n nf = stz c (fill f t) n nf"
  by (simp add: stz_def heap_of_fill)

lemma stz_Nil: "stz [] t n nf = st t n nf"
  by (simp add: stz_def st_def)

lemma distz_dist: "distz c t \<Longrightarrow> dist t"
  by (simp add: distz_def)

lemma stz_plug: "distz c t \<Longrightarrow> stz c t n nf = st (plug c t) n nf"
proof (induction c arbitrary: t)
  case Nil
  then show ?case by (simp add: stz_Nil)
next
  case (Cons f c)
  then show ?case by (simp add: distz_Cons stz_refocus distz_dist)
qed

lemma stz_left: "dist (Nd l a k v h r) \<Longrightarrow> stz c (Nd l a k v h r) n nf = stz (Fr DL a k v h r # c) l n nf"
  using stz_refocus [of "Fr DL a k v h r" l c n nf] by simp

lemma stz_right: "dist (Nd l a k v h r) \<Longrightarrow> stz c (Nd l a k v h r) n nf = stz (Fr DR a k v h l # c) r n nf"
  using stz_refocus [of "Fr DR a k v h l" r c n nf] by simp

lemma bnd_ok [simp]: "bnd (ok x) f = f x"
  by (simp add: bnd_def ok_def)

lemma bnd_fail [simp]: "bnd (fail e) f = fail e"
  by (simp add: bnd_def fail_def)

lemma ok_neq_fail [simp]: "ok x \<noteq> fail e" "fail e \<noteq> ok x"
  by (simp_all add: ok_def fail_def)

lemma ok_inj [simp]: "ok x = ok y \<longleftrightarrow> x = y"
  by (simp add: ok_def)

lemma fail_inj [simp]: "fail e = fail e' \<longleftrightarrow> e = e'"
  by (simp add: fail_def)

lemma heap_stz_focus:
  "heap (stz c (Nd l a k v h r) n nf) a =
     Some \<lparr>key = k, item = v, left = raddr l, right = raddr r, parent = cpar c, height = h\<rparr>"
  by (simp add: stz_def)

lemma rd_focus [simp]:
  "rd (stz c (Nd l a k v h r) n nf) (Some a) f =
     ok (f \<lparr>key = k, item = v, left = raddr l, right = raddr r, parent = cpar c, height = h\<rparr>)"
  by (simp add: rd_def heap_stz_focus)

lemma rd_focus_raddr:
  "t \<noteq> Lf \<Longrightarrow> rd (stz c t n nf) (raddr t) f =
     ok (f \<lparr>key = (case t of Nd l a k v h r \<Rightarrow> k), item = (case t of Nd l a k v h r \<Rightarrow> v),
        left = raddr (lft t), right = raddr (rgt t), parent = cpar c, height = ht t\<rparr>)"
  by (cases t) auto

lemma rd_height_focus: "t \<noteq> Lf \<Longrightarrow> rd (stz c t n nf) (raddr t) height = ok (ht t)"
  by (simp add: rd_focus_raddr)

lemma childHeights_focus:
  assumes "dist (Nd l a k v h r)"
  shows "childHeights (stz c (Nd l a k v h r) n nf) (Some a) = ok (ht l, ht r)"
proof -
  have L: "(case raddr l of None \<Rightarrow> ok (- 1) | Some _ \<Rightarrow> rd (stz c (Nd l a k v h r) n nf) (raddr l) height) = ok (ht l)"
    using assms by (cases l) (simp_all only: stz_left raddr.simps option.case ht.simps rd_focus AVLNode.simps)
  have R: "(case raddr r of None \<Rightarrow> ok (- 1) | Some _ \<Rightarrow> rd (stz c (Nd l a k v h r) n nf) (raddr r) height) = ok (ht r)"
    using assms by (cases r) (simp_all only: stz_right raddr.simps option.case ht.simps rd_focus AVLNode.simps)
  show ?thesis
    unfolding childHeights_def by (simp add: L R)
qed

lemma wr_focus_data:
  "wr (stz c (Nd l a k v h r) n nf) (Some a) (\<lambda>x. x\<lparr>key := k'\<rparr>) = ok (stz c (Nd l a k' v h r) n nf)"
  "wr (stz c (Nd l a k v h r) n nf) (Some a) (\<lambda>x. x\<lparr>item := v'\<rparr>) = ok (stz c (Nd l a k v' h r) n nf)"
  "wr (stz c (Nd l a k v h r) n nf) (Some a) (\<lambda>x. x\<lparr>height := h'\<rparr>) = ok (stz c (Nd l a k v h' r) n nf)"
  by (simp_all add: wr_def heap_stz_focus) (simp_all add: stz_def)

lemma recalcHeight_focus:
  "dist (Nd l a k v h r) \<Longrightarrow>
   recalcHeight (stz c (Nd l a k v h r) n nf) (Some a) = ok (stz c (recalc (Nd l a k v h r)) n nf)"
  by (simp add: recalcHeight_def childHeights_focus wr_focus_data)

subsection \<open>The links changed by a rotation\<close>

lemma raddr_neq [simp]:
  "a \<notin> addrs s \<Longrightarrow> raddr s \<noteq> Some a"
  "a \<notin> addrs s \<Longrightarrow> Some a \<noteq> raddr s"
  by (cases s; auto)+

lemma heap_stz_frame:
  "faddr f \<notin> addrs t \<Longrightarrow> heap (stz (f # c) t n nf) (faddr f) = Some (fcell f (raddr t) (cpar c))"
  by (simp add: stz_def map_add_app)

lemma heap_stz_lr:
  "dist (Nd (Nd ll b kb vb hb (Nd lrl x kx vx hx lrr)) a ka va ha r) \<Longrightarrow>
   heap (stz c (Nd (Nd ll b kb vb hb (Nd lrl x kx vx hx lrr)) a ka va ha r) n nf) x =
     Some \<lparr>key = kx, item = vx, left = raddr lrl, right = raddr lrr, parent = Some b, height = hx\<rparr>"
  by (auto simp add: stz_def map_add_app)

lemma heap_stz_l:
  "dist (Nd (Nd ll b kb vb hb lr) a ka va ha r) \<Longrightarrow>
   heap (stz c (Nd (Nd ll b kb vb hb lr) a ka va ha r) n nf) b =
     Some \<lparr>key = kb, item = vb, left = raddr ll, right = raddr lr, parent = Some a, height = hb\<rparr>"
  by (auto simp add: stz_def map_add_app)

lemma bnd_recalc_cong: "M = M' \<Longrightarrow> bnd (recalcHeight M p) K = bnd (recalcHeight M' p) K"
  by simp

lemma rotR_links:
  assumes "distz c (Nd (Nd ll b kb vb hb lr) a ka va ha r)"
  shows "rotateRight (stz c (Nd (Nd ll b kb vb hb lr) a ka va ha r) n nf) (Some a) =
     bnd (recalcHeight (stz c (Nd ll b kb vb hb (Nd lr a ka va ha r)) n nf) (Some a)) (\<lambda>m7.
     bnd (recalcHeight m7 (Some b)) (\<lambda>m8. ok (m8, Some b)))"
proof (cases c)
  case Nil
  show ?thesis
  proof (cases lr)
    case Lf
    show ?thesis
      using assms Nil Lf
      apply (simp add: rotateRight_def rd_def wr_def heap_stz_l heap_stz_focus distz_def)
      apply (rule bnd_recalc_cong)
      apply (auto simp: stz_def fun_eq_iff map_add_app)
      done
  next
    case (Nd lrl x kx vx hx lrr)
    show ?thesis
      using assms Nil Nd
      apply (simp add: rotateRight_def rd_def wr_def heap_stz_l heap_stz_lr heap_stz_focus distz_def)
      apply (rule bnd_recalc_cong)
      apply (auto simp: stz_def fun_eq_iff map_add_app)
      done
  qed
next
  case (Cons f c')
  obtain d fa kf vf hf s where f: "f = Fr d fa kf vf hf s" by (cases f)
  show ?thesis
  proof (cases lr)
    case Lf
    show ?thesis
      using assms Cons Lf f heap_stz_frame [of f "Nd (Nd ll b kb vb hb lr) a ka va ha r" c' n nf]
      apply (cases d)
      apply (simp_all add: rotateRight_def rd_def wr_def heap_stz_l heap_stz_focus distz_def)
      apply (rule bnd_recalc_cong)
      apply (auto simp: stz_def fun_eq_iff map_add_app)[1]
      apply (rule bnd_recalc_cong)
      apply (auto simp: stz_def fun_eq_iff map_add_app)[1]
      done
  next
    case (Nd lrl x kx vx hx lrr)
    show ?thesis
      using assms Cons Nd f heap_stz_frame [of f "Nd (Nd ll b kb vb hb lr) a ka va ha r" c' n nf]
      apply (cases d)
      apply (simp_all add: rotateRight_def rd_def wr_def heap_stz_l heap_stz_lr heap_stz_focus distz_def)
      apply (rule bnd_recalc_cong)
      apply (auto simp: stz_def fun_eq_iff map_add_app)[1]
      apply (rule bnd_recalc_cong)
      apply (auto simp: stz_def fun_eq_iff map_add_app)[1]
      done
  qed
qed

subsection \<open>Rotations\<close>

lemma rotR_focus:
  assumes "distz c (Nd (Nd ll b kb vb hb lr) a ka va ha r)"
  shows "rotateRight (stz c (Nd (Nd ll b kb vb hb lr) a ka va ha r) n nf) (Some a) =
     ok (stz c (rotR (Nd (Nd ll b kb vb hb lr) a ka va ha r)) n nf, Some b)"
proof -
  let ?t1 = "Nd ll b kb vb hb (Nd lr a ka va ha r)"
  let ?t2 = "Nd ll b kb vb hb (recalc (Nd lr a ka va ha r))"
  have d1: "dist ?t1" and d1': "dist (Nd lr a ka va ha r)" and d2: "dist ?t2"
    using assms by (auto simp: distz_def)
  have "recalcHeight (stz c ?t1 n nf) (Some a) = ok (stz c ?t2 n nf)"
    unfolding stz_right [OF d1] recalc.simps stz_right [OF d2 [unfolded recalc.simps]]
    using recalcHeight_focus [OF d1'] by simp
  moreover have "recalcHeight (stz c ?t2 n nf) (Some b) = ok (stz c (recalc ?t2) n nf)"
    using d2 by (simp add: recalcHeight_focus)
  ultimately show ?thesis
    by (simp add: rotR_links [OF assms])
qed

lemma bnd_recalc_cong': "M = M' \<Longrightarrow> bnd (recalcHeight M p) K = bnd (recalcHeight M' p) K"
  by simp

lemma heap_stz_rl:
  "dist (Nd l a ka va ha (Nd (Nd rll x kx vx hx rlr) b kb vb hb rr)) \<Longrightarrow>
   heap (stz c (Nd l a ka va ha (Nd (Nd rll x kx vx hx rlr) b kb vb hb rr)) n nf) x =
     Some \<lparr>key = kx, item = vx, left = raddr rll, right = raddr rlr, parent = Some b, height = hx\<rparr>"
  by (auto simp add: stz_def map_add_app)

lemma heap_stz_r:
  "dist (Nd l a ka va ha (Nd rl b kb vb hb rr)) \<Longrightarrow>
   heap (stz c (Nd l a ka va ha (Nd rl b kb vb hb rr)) n nf) b =
     Some \<lparr>key = kb, item = vb, left = raddr rl, right = raddr rr, parent = Some a, height = hb\<rparr>"
  by (auto simp add: stz_def map_add_app)

lemma rotL_links:
  assumes "distz c (Nd l a ka va ha (Nd rl b kb vb hb rr))"
  shows "rotateLeft (stz c (Nd l a ka va ha (Nd rl b kb vb hb rr)) n nf) (Some a) =
     bnd (recalcHeight (stz c (Nd (Nd l a ka va ha rl) b kb vb hb rr) n nf) (Some a)) (\<lambda>m7.
     bnd (recalcHeight m7 (Some b)) (\<lambda>m8. ok (m8, Some b)))"
proof (cases c)
  case Nil
  show ?thesis
  proof (cases rl)
    case Lf
    show ?thesis
      using assms Nil Lf
      apply (simp add: rotateLeft_def rd_def wr_def heap_stz_r heap_stz_focus distz_def)
      apply (rule bnd_recalc_cong)
      apply (auto simp: stz_def fun_eq_iff map_add_app)
      done
  next
    case (Nd rll x kx vx hx rlr)
    show ?thesis
      using assms Nil Nd
      apply (simp add: rotateLeft_def rd_def wr_def heap_stz_r heap_stz_rl heap_stz_focus distz_def)
      apply (rule bnd_recalc_cong)
      apply (auto simp: stz_def fun_eq_iff map_add_app)
      done
  qed
next
  case (Cons f c')
  obtain d fa kf vf hf s where f: "f = Fr d fa kf vf hf s" by (cases f)
  show ?thesis
  proof (cases rl)
    case Lf
    show ?thesis
      using assms Cons Lf f heap_stz_frame [of f "Nd l a ka va ha (Nd rl b kb vb hb rr)" c' n nf]
      apply (cases d)
      apply (simp_all add: rotateLeft_def rd_def wr_def heap_stz_r heap_stz_focus distz_def)
      apply (rule bnd_recalc_cong)
      apply (auto simp: stz_def fun_eq_iff map_add_app)[1]
      apply (rule bnd_recalc_cong)
      apply (auto simp: stz_def fun_eq_iff map_add_app)[1]
      done
  next
    case (Nd rll x kx vx hx rlr)
    show ?thesis
      using assms Cons Nd f heap_stz_frame [of f "Nd l a ka va ha (Nd rl b kb vb hb rr)" c' n nf]
      apply (cases d)
      apply (simp_all add: rotateLeft_def rd_def wr_def heap_stz_r heap_stz_rl heap_stz_focus distz_def)
      apply (rule bnd_recalc_cong)
      apply (auto simp: stz_def fun_eq_iff map_add_app)[1]
      apply (rule bnd_recalc_cong)
      apply (auto simp: stz_def fun_eq_iff map_add_app)[1]
      done
  qed
qed

lemma rotL_focus:
  assumes "distz c (Nd l a ka va ha (Nd rl b kb vb hb rr))"
  shows "rotateLeft (stz c (Nd l a ka va ha (Nd rl b kb vb hb rr)) n nf) (Some a) =
     ok (stz c (rotL (Nd l a ka va ha (Nd rl b kb vb hb rr))) n nf, Some b)"
proof -
  let ?t1 = "Nd (Nd l a ka va ha rl) b kb vb hb rr"
  let ?t2 = "Nd (recalc (Nd l a ka va ha rl)) b kb vb hb rr"
  have d1: "dist ?t1" and d1': "dist (Nd l a ka va ha rl)" and d2: "dist ?t2"
    using assms by (auto simp: distz_def)
  have "recalcHeight (stz c ?t1 n nf) (Some a) = ok (stz c ?t2 n nf)"
    unfolding stz_left [OF d1] recalc.simps stz_left [OF d2 [unfolded recalc.simps]]
    using recalcHeight_focus [OF d1'] by simp
  moreover have "recalcHeight (stz c ?t2 n nf) (Some b) = ok (stz c (recalc ?t2) n nf)"
    using d2 by (simp add: recalcHeight_focus)
  ultimately show ?thesis
    by (simp add: rotL_links [OF assms])
qed

subsection \<open>The loop of fixUp\<close>

lemma rd_parent_focus: "t \<noteq> Lf \<Longrightarrow> rd (stz c t n nf) (raddr t) parent = ok (cpar c)"
  by (simp add: rd_focus_raddr)

lemma rotR_not_Lf [simp]: "rotR t = Lf \<longleftrightarrow> t = Lf"
  by (cases t rule: rotR.cases) auto

lemma rotL_not_Lf [simp]: "rotL t = Lf \<longleftrightarrow> t = Lf"
  by (cases t rule: rotL.cases) auto

lemma addrs_recalc [simp]: "addrs (recalc t) = addrs t"
  by (cases t) auto

lemma dist_recalc [simp]: "dist (recalc t) = dist t"
  by (cases t) auto

lemma addrs_rotR [simp]: "addrs (rotR t) = addrs t"
  by (cases t rule: rotR.cases) auto

lemma addrs_rotL [simp]: "addrs (rotL t) = addrs t"
  by (cases t rule: rotL.cases) auto

lemma dist_rotR [simp]: "dist (rotR t) = dist t"
  by (cases t rule: rotR.cases) auto

lemma dist_rotL [simp]: "dist (rotL t) = dist t"
  by (cases t rule: rotL.cases) auto

lemma distz_cong: "addrs t' = addrs t \<Longrightarrow> dist t' = dist t \<Longrightarrow> distz c t' = distz c t"
  by (simp add: distz_def)

lemma fixUp_body_focus:
  assumes dz: "distz c t" and ok: "reb_ok t"
  shows "fixUp_body (stz c t n nf) (raddr t) = ok (stz c (rebal t) n nf, cpar c)"
proof -
  from ok obtain l a k v h r where t: "t = Nd l a k v h r"
    by (cases t) (auto simp: reb_ok_def)
  define h1 where "h1 = 1 + max (ht l) (ht r)"
  let ?t1 = "Nd l a k v h1 r"
  define M1 where "M1 = stz c ?t1 n nf"
  have a: "raddr t = Some a" by (simp add: t)
  have d: "dist t" "dist ?t1" and dz1: "distz c ?t1"
    using dz by (auto simp: distz_def t)
  have rc: "recalcHeight (stz c t n nf) (Some a) = ok M1"
    using d by (simp add: t recalcHeight_focus h1_def M1_def)
  have ch: "childHeights M1 (Some a) = ok (ht l, ht r)"
    using d by (simp add: childHeights_focus M1_def)
  have bal: "\<bar>ht l - ht r\<bar> \<le> 2"
    using ok by (simp add: reb_ok_def t)
  have rdl: "rd M1 (Some a) left = ok (raddr l)" and rdr: "rd M1 (Some a) right = ok (raddr r)"
    by (simp_all add: M1_def)
  consider (left) "ht l = ht r + 2" | (right) "ht l \<noteq> ht r + 2" "ht l + 2 = ht r"
    | (none) "ht l \<noteq> ht r + 2" "ht l + 2 \<noteq> ht r"
    by blast
  then show ?thesis
  proof cases
    case left
    with ok obtain ll b kb vb hb lr where l: "l = Nd ll b kb vb hb lr"
      by (cases l) (auto simp: reb_ok_def t)
    have b: "raddr l = Some b" by (simp add: l)
    have dl: "distz (Fr DL a k v h1 r # c) l"
      using dz1 by (simp add: distz_Cons)
    have dz2: "distz c (Nd (rotL l) a k v h1 r)"
      using dz1 by (simp add: distz_def)
    have chl: "childHeights M1 (Some b) = ok (ht ll, ht lr)"
      unfolding M1_def stz_left [OF d(2)] using d(2) by (simp add: childHeights_focus l)
    show ?thesis
    proof (cases "ht ll < ht lr")
      case True
      with ok left obtain lrl x kx vx hx lrr where lr: "lr = Nd lrl x kx vx hx lrr"
        by (cases lr) (auto simp: reb_ok_def t l)
      define M2 where "M2 = stz c (Nd (rotL l) a k v h1 r) n nf"
      define M3 where "M3 = stz c (rotR (Nd (rotL l) a k v h1 r)) n nf"
      have "rotateLeft M1 (Some b) = ok (stz (Fr DL a k v h1 r # c) (rotL l) n nf, Some x)"
        unfolding M1_def stz_left [OF d(2)]
        using rotL_focus [of "Fr DL a k v h1 r # c" ll b kb vb hb lrl x kx vx hx lrr n nf] dl
        by (simp add: l lr)
      moreover have "stz (Fr DL a k v h1 r # c) (rotL l) n nf = M2"
        using d(2) by (simp add: stz_left M2_def)
      ultimately have r1: "rotateLeft M1 (Some b) = ok (M2, Some x)"
        by simp
      have r2: "rotateRight M2 (Some a) = ok (M3, Some x)"
        unfolding M2_def M3_def
        using rotR_focus [of c "recalc (Nd ll b kb vb hb lrl)" x kx vx "1 + max (ht (recalc (Nd ll b kb vb hb lrl))) (ht lrr)" lrr a k v h1 r n nf] dz2
        by (simp add: l lr)
      have r3: "rd M3 (Some x) parent = ok (cpar c)"
        unfolding M3_def
        using rd_parent_focus [of "rotR (Nd (rotL l) a k v h1 r)" c n nf] by (simp add: l lr)
      have "rebal t = rotR (Nd (rotL l) a k v h1 r)"
        using left True by (simp add: rebal_def t h1_def l)
      then have e: "stz c (rebal t) n nf = M3"
        by (simp add: M3_def)
      show ?thesis
        using left True bal by (simp add: fixUp_body_def a rc ch rdl b chl r1 r2 r3 e)
    next
      case False
      define M3 where "M3 = stz c (rotR ?t1) n nf"
      have r2: "rotateRight M1 (Some a) = ok (M3, Some b)"
        unfolding M1_def M3_def
        using rotR_focus [of c ll b kb vb hb lr a k v h1 r n nf] dz1 by (simp add: l)
      have r3: "rd M3 (Some b) parent = ok (cpar c)"
        unfolding M3_def
        using rd_parent_focus [of "rotR ?t1" c n nf] by (simp add: l)
      have "rebal t = rotR ?t1"
        using left False by (simp add: rebal_def t h1_def l)
      then have e: "stz c (rebal t) n nf = M3"
        by (simp add: M3_def)
      show ?thesis
        using left False bal by (simp add: fixUp_body_def a rc ch rdl b chl r2 r3 e)
    qed
  next
    case right
    with ok obtain rl b kb vb hb rr where r: "r = Nd rl b kb vb hb rr"
      by (cases r) (auto simp: reb_ok_def t)
    have b: "raddr r = Some b" by (simp add: r)
    have dr: "distz (Fr DR a k v h1 l # c) r"
      using dz1 by (simp add: distz_Cons)
    have dz2: "distz c (Nd l a k v h1 (rotR r))"
      using dz1 by (simp add: distz_def)
    have chr: "childHeights M1 (Some b) = ok (ht rl, ht rr)"
      unfolding M1_def stz_right [OF d(2)] using d(2) by (simp add: childHeights_focus r)
    show ?thesis
    proof (cases "ht rl > ht rr")
      case True
      with ok right obtain rll x kx vx hx rlr where rl: "rl = Nd rll x kx vx hx rlr"
        by (cases rl) (auto simp: reb_ok_def t r)
      define M2 where "M2 = stz c (Nd l a k v h1 (rotR r)) n nf"
      define M3 where "M3 = stz c (rotL (Nd l a k v h1 (rotR r))) n nf"
      have "rotateRight M1 (Some b) = ok (stz (Fr DR a k v h1 l # c) (rotR r) n nf, Some x)"
        unfolding M1_def stz_right [OF d(2)]
        using rotR_focus [of "Fr DR a k v h1 l # c" rll x kx vx hx rlr b kb vb hb rr n nf] dr
        by (simp add: r rl)
      moreover have "stz (Fr DR a k v h1 l # c) (rotR r) n nf = M2"
        using d(2) by (simp add: stz_right M2_def)
      ultimately have r1: "rotateRight M1 (Some b) = ok (M2, Some x)"
        by simp
      have r2: "rotateLeft M2 (Some a) = ok (M3, Some x)"
        unfolding M2_def M3_def
        using rotL_focus [of c l a k v h1 rll x kx vx "1 + max (ht rll) (ht (recalc (Nd rlr b kb vb hb rr)))" "recalc (Nd rlr b kb vb hb rr)" n nf] dz2
        by (simp add: r rl)
      have r3: "rd M3 (Some x) parent = ok (cpar c)"
        unfolding M3_def
        using rd_parent_focus [of "rotL (Nd l a k v h1 (rotR r))" c n nf] by (simp add: r rl)
      have "rebal t = rotL (Nd l a k v h1 (rotR r))"
        using right True by (simp add: rebal_def t h1_def r)
      then have e: "stz c (rebal t) n nf = M3"
        by (simp add: M3_def)
      show ?thesis
        using right True bal by (simp add: fixUp_body_def a rc ch rdr b chr r1 r2 r3 e)
    next
      case False
      define M3 where "M3 = stz c (rotL ?t1) n nf"
      have r2: "rotateLeft M1 (Some a) = ok (M3, Some b)"
        unfolding M1_def M3_def
        using rotL_focus [of c l a k v h1 rl b kb vb hb rr n nf] dz1 by (simp add: r)
      have r3: "rd M3 (Some b) parent = ok (cpar c)"
        unfolding M3_def
        using rd_parent_focus [of "rotL ?t1" c n nf] by (simp add: r)
      have "rebal t = rotL ?t1"
        using right False by (simp add: rebal_def t h1_def r)
      then have e: "stz c (rebal t) n nf = M3"
        by (simp add: M3_def)
      show ?thesis
        using right False bal by (simp add: fixUp_body_def a rc ch rdr b chr r2 r3 e)
    qed
  next
    case none
    have r3: "rd M1 (Some a) parent = ok (cpar c)"
      by (simp add: M1_def)
    have "rebal t = ?t1"
      using none by (simp add: rebal_def t h1_def)
    then have e: "stz c (rebal t) n nf = M1"
      by (simp add: M1_def)
    show ?thesis
      using none bal by (simp add: fixUp_body_def a rc ch r3 e)
  qed
qed

lemma rebal_not_Lf [simp]: "rebal t = Lf \<longleftrightarrow> t = Lf"
  by (cases t) (auto simp: rebal_def)

lemma addrs_rebal [simp]: "addrs (rebal t) = addrs t"
  by (cases t) (auto simp: rebal_def)

lemma dist_rebal [simp]: "dist (rebal t) = dist t"
  by (cases t) (auto simp: rebal_def)

lemma distz_rebal [simp]: "distz c (rebal t) = distz c t"
  by (simp add: distz_def)

lemma fixUp_focus:
  "distz c t \<Longrightarrow> fix_ok c t \<Longrightarrow> fixUp (stz c t n nf) (raddr t) = ok (st (fixUp_z c t) n nf)"
proof (induction c arbitrary: t)
  case Nil
  then have "t \<noteq> Lf" by (auto simp: reb_ok_def)
  then obtain a where a: "raddr t = Some a" by (cases t) auto
  show ?case
    using Nil fixUp_body_focus [of "[]" t n nf]
    by (subst fixUp.simps) (simp add: a fixUp.simps [of _ None] stz_Nil)
next
  case (Cons f c)
  then have "t \<noteq> Lf" by (auto simp: reb_ok_def)
  then obtain a where a: "raddr t = Some a" by (cases t) auto
  have dz: "distz c (fill f (rebal t))"
    using Cons.prems(1) by (simp add: distz_Cons [symmetric])
  have "stz (f # c) (rebal t) n nf = stz c (fill f (rebal t)) n nf"
    using dz by (simp add: stz_refocus distz_dist)
  moreover have "fixUp (stz c (fill f (rebal t)) n nf) (Some (faddr f)) = ok (st (fixUp_z c (fill f (rebal t))) n nf)"
    using Cons.IH [OF dz] Cons.prems(2) by simp
  ultimately show ?case
    using Cons.prems fixUp_body_focus [of "f # c" t n nf]
    by (subst fixUp.simps) (simp add: a)
qed

subsection \<open>findNode\<close>

lemma locate_plug: "locate x c t = (c', t') \<Longrightarrow> plug c' t' = plug c t"
  by (induction x c t rule: locate.induct) (auto split: if_splits)

lemma locate_distz: "locate x c t = (c', t') \<Longrightarrow> distz c t \<Longrightarrow> distz c' t'"
  using locate_plug [of x c t c' t'] by (simp add: dist_plug [symmetric])

lemma locate_stz: "locate x c t = (c', t') \<Longrightarrow> distz c t \<Longrightarrow> stz c' t' n nf = stz c t n nf"
  using locate_plug [of x c t c' t'] locate_distz [of x c t c' t'] by (simp add: stz_plug)

lemma locate_rkey: "locate x c t = (c', t') \<Longrightarrow> t' \<noteq> Lf \<Longrightarrow> rkey t' = Some x"
  by (induction x c t rule: locate.induct) (auto split: if_splits)

lemma locate_cstep: "locate x c t = (c', t') \<Longrightarrow> list_all (cstep x) c \<Longrightarrow> list_all (cstep x) c'"
  by (induction x c t rule: locate.induct) (auto split: if_splits simp: cstep_def)

lemma findNode_loop_focus:
  "distz c t \<Longrightarrow> findNode_loop (stz c t n nf) x (raddr t) (cpar c) =
     ok (raddr (snd (locate x c t)), cpar (fst (locate x c t)))"
proof (induction t arbitrary: c)
  case Lf
  show ?case by (subst findNode_loop.simps) simp
next
  case (Nd l a k v h r)
  have d: "dist (Nd l a k v h r)" using Nd.prems by (simp add: distz_def)
  have dl: "distz (Fr DL a k v h r # c) l" and dr: "distz (Fr DR a k v h l # c) r"
    using Nd.prems by (simp_all add: distz_Cons)
  have L: "findNode_loop (stz c (Nd l a k v h r) n nf) x (raddr l) (Some a) =
       ok (raddr (snd (locate x (Fr DL a k v h r # c) l)), cpar (fst (locate x (Fr DL a k v h r # c) l)))"
    unfolding stz_left [OF d] using Nd.IH(1) [OF dl] by simp
  have R: "findNode_loop (stz c (Nd l a k v h r) n nf) x (raddr r) (Some a) =
       ok (raddr (snd (locate x (Fr DR a k v h l # c) r)), cpar (fst (locate x (Fr DR a k v h l # c) r)))"
    unfolding stz_right [OF d] using Nd.IH(2) [OF dr] by simp
  show ?case
    by (subst findNode_loop.simps) (simp add: L R)
qed

lemma findNode_st:
  assumes "dist t"
  shows "findNode (st t n nf) x =
     ok (case locate x [] t of (c, t') \<Rightarrow> if t' = Lf then cpar c else raddr t')"
proof -
  have "findNode_loop (st t n nf) x (raddr t) None =
     ok (raddr (snd (locate x [] t)), cpar (fst (locate x [] t)))"
    using findNode_loop_focus [of "[]" t n nf x] assms by (simp add: distz_def stz_Nil)
  moreover have "root (st t n nf) = raddr t" by (simp add: st_def)
  ultimately show ?thesis
    by (cases "locate x [] t"; cases "snd (locate x [] t)") (auto simp: findNode_def)
qed

subsection \<open>update\<close>

lemma st_fields [simp]:
  "nextFree (st t n nf) = nf" "avlSize (st t n nf) = n" "root (st t n nf) = raddr t"
  "heap (st t n nf) = heap_of t None"
  by (simp_all add: st_def)

lemma stz_fields [simp]:
  "nextFree (stz c t n nf) = nf" "avlSize (stz c t n nf) = n" "root (stz c t n nf) = croot c (raddr t)"
  by (simp_all add: stz_def)

lemma fcell_key [simp]: "key (fcell f y p) = fkey f"
  by (cases "(f, y, p)" rule: fcell.cases) auto

lemma attach_leaf:
  assumes "cdist (f # c)" "nf \<notin> caddrs (f # c)"
  shows "(heap (stz (f # c) Lf n nf'))(nf \<mapsto> \<lparr>key = k, item = v, left = None, right = None, parent = Some (faddr f), height = 0\<rparr>,
            faddr f \<mapsto> fcell f (Some nf) (cpar c))
        = heap (stz (f # c) (Nd Lf nf k v 0 Lf) n' nf'')"
  using assms by (auto simp: stz_def fun_eq_iff map_add_app)

lemma fcell_left: "fdir f = DL \<Longrightarrow> (fcell f y p)\<lparr>left := y'\<rparr> = fcell f y' p"
  by (cases "(f, y, p)" rule: fcell.cases) auto

lemma fcell_right: "fdir f = DR \<Longrightarrow> (fcell f y p)\<lparr>right := y'\<rparr> = fcell f y' p"
  by (cases "(f, y, p)" rule: fcell.cases) auto

lemma fdir_DR: "fdir f \<noteq> DL \<longleftrightarrow> fdir f = DR"
  by (cases "fdir f") auto

lemma update_st:
  assumes d: "dist t" and fresh: "nf \<notin> addrs t"
    and fok: "\<And>c. locate k [] t = (c, Lf) \<Longrightarrow> fix_ok c (Nd Lf nf k v 0 Lf)"
  shows "update (st t n nf) k v =
     ok (if snd (locate k [] t) = Lf then st (upd_t nf k v t) (n + 1) (Suc nf)
         else st (upd_t nf k v t) n nf)"
proof -
  obtain c t' where loc: "locate k [] t = (c, t')" by (cases "locate k [] t")
  have dz: "distz c t'" using locate_distz [OF loc] d by (simp add: distz_def)
  have stz: "st t n nf = stz c t' n nf"
    using locate_stz [OF loc, of n nf] d by (simp add: distz_def stz_Nil)
  have pl: "plug c t' = t" using locate_plug [OF loc] by simp
  have fn: "findNode (stz c t' n nf) k = ok (if t' = Lf then cpar c else raddr t')"
    using findNode_st [OF d, of n nf k] by (simp add: loc stz)
  show ?thesis
  proof (cases t')
    case (Nd l a k' v' h r)
    have k': "k' = k" using locate_rkey [OF loc] Nd by simp
    have "distz c (Nd l a k' v h r)" using dz by (simp add: Nd distz_def)
    then have "stz c (Nd l a k' v h r) n nf = st (plug c (Nd l a k' v h r)) n nf"
      by (rule stz_plug)
    then show ?thesis
      using fn by (simp add: update_def Nd stz k' wr_focus_data upd_t_def loc)
  next
    case Lf
    have fz: "fix_ok c (Nd Lf nf k v 0 Lf)" using fok loc Lf by simp
    have nfc: "nf \<notin> caddrs c" using fresh pl [symmetric] by (simp add: addrs_plug Lf)
    have dz': "distz c (Nd Lf nf k v 0 Lf)" using dz nfc by (simp add: distz_def Lf)
    have fx: "fixUp (stz c (Nd Lf nf k v 0 Lf) (n + 1) (Suc nf)) (Some nf) =
        ok (st (fixUp_z c (Nd Lf nf k v 0 Lf)) (n + 1) (Suc nf))"
      using fixUp_focus [OF dz' fz, of "n + 1" "Suc nf"] by simp
    show ?thesis
    proof (cases c)
      case Nil
      have "t = Lf" using pl Nil Lf by simp
      moreover have "st Lf n nf \<lparr>heap := (heap (st Lf n nf))(nf \<mapsto> \<lparr>key = k, item = v, left = None, right = None, parent = None, height = 0\<rparr>),
             nextFree := Suc nf, root := Some nf, avlSize := n + 1\<rparr>
          = stz [] (Nd Lf nf k v 0 Lf) (n + 1) (Suc nf)"
        by (simp add: st_def stz_def)
      ultimately show ?thesis
        using fx fn by (simp add: update_def Lf Nil upd_t_def loc Let_def stz_Nil) (simp add: st_def)
    next
      case (Cons f c')
      have cs: "cstep k f" using locate_cstep [OF loc] Cons by simp
      have fa: "faddr f \<noteq> nf" using nfc Cons by auto
      have hf: "heap (stz (f # c') Lf n nf) (faddr f) = Some (fcell f None (cpar c'))"
        using heap_stz_frame [of f Lf c' n nf] by simp
      have cd: "cdist (f # c')" using dz Cons by (simp add: distz_def)
      have fx': "fixUp (stz (f # c') (Nd Lf nf k v 0 Lf) (n + 1) (Suc nf)) (Some nf) =
          ok (st (fixUp_z c' (fill f (rebal (Nd Lf nf k v 0 Lf)))) (n + 1) (Suc nf))"
        using fx by (simp add: Cons)
      have M: "fixUp M (Some nf) = ok (st (fixUp_z c' (fill f (rebal (Nd Lf nf k v 0 Lf)))) (n + 1) (Suc nf))"
        if "M = stz (f # c') (Nd Lf nf k v 0 Lf) (n + 1) (Suc nf)" for M
        using fx' that by simp
      have fc: "fcell f None (cpar c')\<lparr>left := Some nf\<rparr> = fcell f (Some nf) (cpar c')" if "fdir f = DL"
        using that by (simp add: fcell_left)
      have fc': "fcell f None (cpar c')\<lparr>right := Some nf\<rparr> = fcell f (Some nf) (cpar c')" if "fdir f = DR"
        using that by (simp add: fcell_right)
      show ?thesis
        using cs fa hf fn
        apply (simp add: update_def Lf Cons stz upd_t_def loc Let_def rd_def wr_def cstep_def fdir_DR)
        apply (intro conjI impI M)
        using cd nfc [unfolded Cons]
         apply (auto simp: stz_def fun_eq_iff map_add_app fc fc')
        done
    qed
  qed
qed

subsection \<open>pluckNode\<close>

lemma stz_eqI:
  "croot c (raddr t) = rt \<Longrightarrow> cheap c (raddr t) ++ heap_of t (cpar c) = h \<Longrightarrow>
   \<lparr>root = rt, avlSize = n, heap = h, nextFree = nf\<rparr> = stz c t n nf"
  by (simp add: stz_def)

lemma pluckNode_focus:
  assumes dz: "distz c (Nd pl p kp vp hp pr)"
    and one: "pl = Lf \<or> (pr = Lf \<and> rgt pl = Lf)"
  shows "pluckNode (stz c (Nd pl p kp vp hp pr) n nf) (Some p) =
     ok (stz c (if pl = Lf then pr else pl) (n - 1) nf)"
proof -
  let ?m = "stz c (Nd pl p kp vp hp pr) n nf"
  have d: "dist (Nd pl p kp vp hp pr)" using dz by (simp add: distz_def)
  show ?thesis
  proof (cases c)
    case Nil
    show ?thesis
    proof (cases "if pl = Lf then pr else pl")
      case Lf
      then have "pl = Lf" "pr = Lf" using one by (auto split: if_splits)
      then show ?thesis
        using dz Nil
        by (simp add: pluckNode_def rd_def wr_def heap_stz_focus) (simp add: stz_def)
    next
      case (Nd cl q kq vq hq cr)
      show ?thesis
      proof (cases "pl = Lf")
        case True
        then show ?thesis
          using dz Nil Nd heap_stz_r [of Lf p kp vp hp cl q kq vq hq cr "[]" n nf]
          apply (simp add: pluckNode_def rd_def wr_def heap_stz_focus distz_def)
          apply (auto simp: stz_def fun_eq_iff map_add_app)
          done
      next
        case False
        then have "pr = Lf" "cr = Lf" "pl = Nd cl q kq vq hq cr" using one Nd by auto
        then show ?thesis
          using dz Nil heap_stz_l [of cl q kq vq hq Lf p kp vp hp Lf "[]" n nf]
          apply (simp add: pluckNode_def rd_def wr_def heap_stz_focus distz_def)
          apply (auto simp: stz_def fun_eq_iff map_add_app)
          done
      qed
    qed
  next
    case (Cons f c')
    obtain dd fa kf vf hf s where f: "f = Fr dd fa kf vf hf s" by (cases f)
    have hf: "heap ?m fa = Some (fcell f (Some p) (cpar c'))"
      using heap_stz_frame [of f "Nd pl p kp vp hp pr" c' n nf] dz Cons f
      by (simp add: distz_def)
    show ?thesis
    proof (cases "if pl = Lf then pr else pl")
      case Lf
      then have "pl = Lf" "pr = Lf" using one by (auto split: if_splits)
      then show ?thesis
        using dz Cons f hf
        apply (cases dd)
         apply (simp_all add: pluckNode_def rd_def wr_def heap_stz_focus distz_def)
         apply (auto simp: stz_def fun_eq_iff map_add_app)[1]
        apply (auto simp: stz_def fun_eq_iff map_add_app)[1]
        done
    next
      case (Nd cl q kq vq hq cr)
      show ?thesis
      proof (cases "pl = Lf")
        case True
        then show ?thesis
          using dz Cons f hf Nd heap_stz_r [of Lf p kp vp hp cl q kq vq hq cr c n nf]
          apply (cases dd)
           apply (simp_all add: pluckNode_def rd_def wr_def heap_stz_focus distz_def)
           apply (auto simp: stz_def fun_eq_iff map_add_app)[1]
          apply (auto simp: stz_def fun_eq_iff map_add_app)[1]
          done
      next
        case False
        then have "pr = Lf" "cr = Lf" "pl = Nd cl q kq vq hq cr" using one Nd by auto
        then show ?thesis
          using dz Cons f hf heap_stz_l [of cl q kq vq hq Lf p kp vp hp Lf c n nf]
          apply (cases dd)
           apply (simp_all add: pluckNode_def rd_def wr_def heap_stz_focus distz_def)
           apply (auto simp: stz_def fun_eq_iff map_add_app)[1]
          apply (auto simp: stz_def fun_eq_iff map_add_app)[1]
          done
      qed
    qed
  qed
qed

subsection \<open>remove\<close>

lemma rmost_plug: "rmost c t = (c', t') \<Longrightarrow> plug c' t' = plug c t"
  by (induction c t rule: rmost.induct) auto

lemma rmost_Lf [simp]: "snd (rmost c t) = Lf \<longleftrightarrow> t = Lf"
  by (induction c t rule: rmost.induct) auto

lemma rmost_rgt [simp]: "rgt (snd (rmost c t)) = Lf"
  by (induction c t rule: rmost.induct) auto

lemma rmost_snd: "snd (rmost c t) = snd (rmost [] t)"
proof (induction t arbitrary: c)
  case Lf
  show ?case by simp
next
  case (Nd l a k v h r)
  show ?case
    using Nd.IH(2) [of "Fr DR a k v h l # c"] Nd.IH(2) [of "[Fr DR a k v h l]"]
    by (cases r) simp_all
qed

lemma rmost_distz: "rmost c t = (c', t') \<Longrightarrow> distz c t \<Longrightarrow> distz c' t'"
  using rmost_plug [of c t c' t'] by (simp add: dist_plug [symmetric])

lemma rmost_stz: "distz c t \<Longrightarrow> stz (fst (rmost c t)) (snd (rmost c t)) n nf = stz c t n nf"
  using rmost_plug [of c t "fst (rmost c t)" "snd (rmost c t)"]
    rmost_distz [of c t "fst (rmost c t)" "snd (rmost c t)"] by (simp add: stz_plug)

lemma pluck_loop_focus:
  "distz c t \<Longrightarrow> t \<noteq> Lf \<Longrightarrow> pluck_loop (stz c t n nf) (raddr t) p0 = ok (raddr (snd (rmost c t)))"
proof (induction t arbitrary: c p0)
  case Lf
  then show ?case by simp
next
  case (Nd l a k v h r)
  have d: "dist (Nd l a k v h r)" using Nd.prems by (simp add: distz_def)
  have dr: "distz (Fr DR a k v h l # c) r"
    using Nd.prems by (simp_all add: distz_Cons)
  show ?case
  proof (cases r)
    case Lf
    show ?thesis
      by (subst pluck_loop.simps) (simp add: Lf pluck_loop.simps [of _ None])
  next
    case (Nd rl b kb vb hb rr)
    have "pluck_loop (stz c (Nd l a k v h r) n nf) (raddr r) (Some a) =
        ok (raddr (snd (rmost (Fr DR a k v h l # c) r)))"
      unfolding stz_right [OF d] using Nd.IH(2) [OF dr] Nd by simp
    then show ?thesis
      by (subst pluck_loop.simps) (simp add: Nd)
  qed
qed

lemma fixUp_hole:
  "distz c t \<Longrightarrow> fix_hole_ok c t \<Longrightarrow> fixUp (stz c t n nf) (cpar c) = ok (st (fix_hole c t) n nf)"
proof (cases c)
  case Nil
  then show ?thesis by (simp add: fixUp.simps [of _ None] stz_Nil)
next
  case (Cons f c')
  assume a: "distz c t" "fix_hole_ok c t"
  have dz: "distz c' (fill f t)" using a Cons by (simp add: distz_Cons)
  have "stz (f # c') t n nf = stz c' (fill f t) n nf"
    using dz by (simp add: stz_refocus distz_dist)
  then show ?thesis
    using fixUp_focus [OF dz, of n nf] a Cons by simp
qed

lemma rd_pluck:
  assumes dz: "distz c (Nd l a k v h r)" and P: "snd (rmost [] l) = Nd pl p kp vp hp pr"
  shows "rd (stz c (Nd l a k v h r) n nf) (Some p) f =
     ok (f \<lparr>key = kp, item = vp, left = raddr pl, right = raddr pr,
            parent = cpar (fst (rmost (Fr DL a k v h r # c) l)), height = hp\<rparr>)"
proof -
  have d: "dist (Nd l a k v h r)" using dz by (simp add: distz_def)
  have dl: "distz (Fr DL a k v h r # c) l" using dz by (simp add: distz_Cons)
  have "stz c (Nd l a k v h r) n nf = stz (fst (rmost (Fr DL a k v h r # c) l)) (Nd pl p kp vp hp pr) n nf"
    unfolding stz_left [OF d] using rmost_stz [OF dl, of n nf] rmost_snd [of "Fr DL a k v h r # c" l] P
    by simp
  then show ?thesis by simp
qed

lemma remove_find_st:
  assumes d: "dist t"
  shows "remove_find (st t n nf) k =
     (case pluck_z k t of (cp, Lf) \<Rightarrow> fail Assert_remove
      | (cp, P) \<Rightarrow> ok (stz cp P n nf, raddr P, cpar cp))"
proof -
  obtain c t' where loc: "locate k [] t = (c, t')" by (cases "locate k [] t")
  have dz: "distz c t'" using locate_distz [OF loc] d by (simp add: distz_def)
  have stz: "st t n nf = stz c t' n nf"
    using locate_stz [OF loc, of n nf] d by (simp add: distz_def stz_Nil)
  have fn: "findNode (stz c t' n nf) k = ok (if t' = Lf then cpar c else raddr t')"
    using findNode_st [OF d, of n nf k] by (simp add: loc stz)
  show ?thesis
  proof (cases t')
    case Lf
    show ?thesis
    proof (cases c)
      case Nil
      then show ?thesis using fn by (simp add: remove_find_def stz Lf pluck_z_def loc)
    next
      case (Cons f c')
      have cs: "cstep k f" using locate_cstep [OF loc] Cons by simp
      have hf: "heap (stz (f # c') Lf n nf) (faddr f) = Some (fcell f None (cpar c'))"
        using heap_stz_frame [of f Lf c' n nf] by simp
      show ?thesis
        using fn cs hf
        by (auto simp add: remove_find_def stz Lf Cons pluck_z_def loc rd_def cstep_def)
    qed
  next
    case (Nd l a k' v h r)
    have k': "k' = k" using locate_rkey [OF loc] Nd by simp
    note dzN = dz [unfolded Nd k']
    show ?thesis
    proof (cases l)
      case Lf
      show ?thesis
        using fn by (simp add: remove_find_def stz Nd k' Lf pluck_z_def loc
            pluck_loop.simps [of _ None] wr_focus_data)
    next
      case NdL: (Nd ll b kb vb hb lr)
      obtain pl p kp vp hp pr where P: "snd (rmost [] l) = Nd pl p kp vp hp pr"
        using rmost_Lf [of "[]" l] NdL by (cases "snd (rmost [] l)") auto
      have dN: "dist (Nd l a k v h r)" using dzN by (simp add: distz_def)
      have dl: "distz (Fr DL a k v h r # c) l" using dzN by (simp add: distz_Cons)
      have dz1: "distz c (Nd l a kp v h r)" and dz2: "distz c (Nd l a kp vp h r)"
        using dzN by (simp_all add: distz_def)
      have pk: "pluck_loop (stz c (Nd l a k v h r) n nf) (raddr l) (Some a) = ok (Some p)"
        unfolding stz_left [OF dN]
        using pluck_loop_focus [OF dl, of n nf "Some a"] rmost_snd [of "Fr DL a k v h r # c" l] P NdL
        by simp
      have dl2: "distz (Fr DL a kp vp h r # c) l" using dz2 by (simp add: distz_Cons)
      obtain cp2 where r2: "rmost (Fr DL a kp vp h r # c) l = (cp2, Nd pl p kp vp hp pr)"
        using rmost_snd [of "Fr DL a kp vp h r # c" l] P
        by (cases "rmost (Fr DL a kp vp h r # c) l") simp
      have e2: "stz c (Nd l a kp vp h r) n nf = stz cp2 (Nd pl p kp vp hp pr) n nf"
        unfolding stz_left [OF distz_dist [OF dz2]]
        using rmost_stz [OF dl2, of n nf] r2 by simp
      have r3: "rd (stz c (Nd l a kp vp h r) n nf) (Some p) parent = ok (cpar cp2)"
        using rd_pluck [OF dz2 P, of n nf parent] r2 by simp
      have r1: "rd (stz c (Nd l a k v h r) n nf) (Some p) key = ok kp"
        using rd_pluck [OF dzN P, of n nf key] by simp
      have r2': "rd (stz c (Nd l a kp v h r) n nf) (Some p) item = ok vp"
        using rd_pluck [OF dz1 P, of n nf item] by simp
      have "remove_find (stz c (Nd l a k v h r) n nf) k = ok (stz c (Nd l a kp vp h r) n nf, Some p, cpar cp2)"
        using fn [unfolded Nd k'] pk
        by (simp add: remove_find_def wr_focus_data r1 r2' r3)
      then show ?thesis
        by (simp add: stz Nd k' pluck_z_def loc P r2 e2)
    qed
  qed
qed

lemma pluck_z_Lf: "snd (pluck_z k t) = Lf \<longleftrightarrow> snd (locate k [] t) = Lf"
  by (cases "locate k [] t"; cases "snd (locate k [] t)")
     (auto simp: pluck_z_def rmost_snd [of "_ # _"] split: tr.splits)

lemma pluck_z_distz:
  assumes d: "dist t" and pz: "pluck_z k t = (cp, P)"
  shows "distz cp P"
proof -
  obtain c t' where loc: "locate k [] t = (c, t')" by (cases "locate k [] t")
  have dz: "distz c t'" using locate_distz [OF loc] d by (simp add: distz_def)
  show ?thesis
  proof (cases t')
    case Lf
    then show ?thesis using pz dz by (simp add: pluck_z_def loc)
  next
    case (Nd l a k' v h r)
    show ?thesis
    proof (cases "snd (rmost [] l)")
      case Lf
      then show ?thesis using pz dz Nd by (simp add: pluck_z_def loc)
    next
      case P: (Nd pl p kp vp hp pr)
      have "distz (Fr DL a kp vp h r # c) l"
        using dz Nd by (auto simp add: distz_Cons distz_def)
      then show ?thesis
        using pz Nd P rmost_distz [of "Fr DL a kp vp h r # c" l cp P]
        by (simp add: pluck_z_def loc)
    qed
  qed
qed

lemma remove_st:
  assumes d: "dist t"
    and one: "\<And>cp pl p kp vp hp pr. pluck_z k t = (cp, Nd pl p kp vp hp pr) \<Longrightarrow>
        (pl = Lf \<or> (pr = Lf \<and> rgt pl = Lf)) \<and> fix_hole_ok cp (if pl = Lf then pr else pl)"
  shows "remove (st t n nf) k =
     (if snd (locate k [] t) = Lf then fail Assert_remove else ok (st (rem_t k t) (n - 1) nf))"
proof -
  obtain cp P where pz: "pluck_z k t = (cp, P)" by (cases "pluck_z k t")
  have dz: "distz cp P" by (rule pluck_z_distz [OF d pz])
  show ?thesis
  proof (cases P)
    case Lf
    then show ?thesis
      using pluck_z_Lf [of k t] by (simp add: remove_def remove_find_st [OF d] pz)
  next
    case (Nd pl p kp vp hp pr)
    let ?ch = "if pl = Lf then pr else pl"
    have o: "pl = Lf \<or> (pr = Lf \<and> rgt pl = Lf)" and fo: "fix_hole_ok cp ?ch"
      using one [of cp pl p kp vp hp pr] pz Nd by simp_all
    have dz': "distz cp ?ch" using dz Nd by (auto simp: distz_def)
    have pn: "pluckNode (stz cp (Nd pl p kp vp hp pr) n nf) (Some p) = ok (stz cp ?ch (n - 1) nf)"
      using pluckNode_focus [OF dz [unfolded Nd] o] .
    have fx: "fixUp (stz cp ?ch (n - 1) nf) (cpar cp) = ok (st (fix_hole cp ?ch) (n - 1) nf)"
      by (rule fixUp_hole [OF dz' fo])
    have "snd (locate k [] t) \<noteq> Lf"
      using pluck_z_Lf [of k t] pz Nd by simp
    then show ?thesis
      by (simp add: remove_def remove_find_st [OF d] pz Nd pn fx rem_t_def)
  qed
qed

subsection \<open>Lookups and the steps of an iterator\<close>

lemma hasKey_st:
  assumes d: "dist t"
  shows "hasKey (st t n nf) k = ok (snd (locate k [] t) \<noteq> Lf)"
proof -
  obtain c t' where loc: "locate k [] t = (c, t')" by (cases "locate k [] t")
  have dz: "distz c t'" using locate_distz [OF loc] d by (simp add: distz_def)
  have stz: "st t n nf = stz c t' n nf"
    using locate_stz [OF loc, of n nf] d by (simp add: distz_def stz_Nil)
  have fn: "findNode (stz c t' n nf) k = ok (if t' = Lf then cpar c else raddr t')"
    using findNode_st [OF d, of n nf k] by (simp add: loc stz)
  show ?thesis
  proof (cases t')
    case Lf
    show ?thesis
    proof (cases c)
      case Nil
      then show ?thesis using fn by (simp add: hasKey_def stz Lf loc)
    next
      case (Cons f c')
      have cs: "cstep k f" using locate_cstep [OF loc] Cons by simp
      have hf: "heap (stz (f # c') Lf n nf) (faddr f) = Some (fcell f None (cpar c'))"
        using heap_stz_frame [of f Lf c' n nf] by simp
      show ?thesis
        using fn cs hf
        by (auto simp add: hasKey_def stz Lf Cons loc rd_def cstep_def)
    qed
  next
    case (Nd l a k' v h r)
    have k': "k' = k" using locate_rkey [OF loc] Nd by simp
    show ?thesis
      using fn by (simp add: hasKey_def stz Nd k' loc)
  qed
qed

lemma at_st:
  assumes d: "dist t"
  shows "at (st t n nf) k =
     (case ritem (snd (locate k [] t)) of None \<Rightarrow> fail Assert_at | Some v \<Rightarrow> ok v)"
proof -
  obtain c t' where loc: "locate k [] t = (c, t')" by (cases "locate k [] t")
  have dz: "distz c t'" using locate_distz [OF loc] d by (simp add: distz_def)
  have stz: "st t n nf = stz c t' n nf"
    using locate_stz [OF loc, of n nf] d by (simp add: distz_def stz_Nil)
  have fn: "findNode (stz c t' n nf) k = ok (if t' = Lf then cpar c else raddr t')"
    using findNode_st [OF d, of n nf k] by (simp add: loc stz)
  show ?thesis
  proof (cases t')
    case Lf
    show ?thesis
    proof (cases c)
      case Nil
      then show ?thesis using fn by (simp add: at_def stz Lf loc)
    next
      case (Cons f c')
      have cs: "cstep k f" using locate_cstep [OF loc] Cons by simp
      have hf: "heap (stz (f # c') Lf n nf) (faddr f) = Some (fcell f None (cpar c'))"
        using heap_stz_frame [of f Lf c' n nf] by simp
      show ?thesis
        using fn cs hf
        by (auto simp add: at_def stz Lf Cons loc rd_def cstep_def)
    qed
  next
    case (Nd l a k' v h r)
    have k': "k' = k" using locate_rkey [OF loc] Nd by simp
    show ?thesis
      using fn by (simp add: at_def stz Nd k' loc)
  qed
qed

lemma lmost_plug: "lmost c t = (c', t') \<Longrightarrow> plug c' t' = plug c t"
  by (induction c t rule: lmost.induct) auto

lemma lmost_Lf [simp]: "snd (lmost c t) = Lf \<longleftrightarrow> t = Lf"
  by (induction c t rule: lmost.induct) auto

lemma lmost_lft [simp]: "lft (snd (lmost c t)) = Lf"
  by (induction c t rule: lmost.induct) auto

lemma leftmost_focus:
  "distz c t \<Longrightarrow> t \<noteq> Lf \<Longrightarrow> leftmost (stz c t n nf) (raddr t) = ok (raddr (snd (lmost c t)))"
proof (induction c t rule: lmost.induct)
  case (1 c)
  then show ?case by simp
next
  case (2 c a k v h r)
  show ?case by (subst leftmost.simps) simp
next
  case (3 c ll b kb vb hb lr a k v h r)
  let ?l = "Nd ll b kb vb hb lr"
  have d: "dist (Nd ?l a k v h r)" using 3(2) by (simp add: distz_def)
  have dl: "distz (Fr DL a k v h r # c) ?l"
    using 3(2) by (simp add: distz_Cons)
  have "leftmost (stz c (Nd ?l a k v h r) n nf) (Some b) = ok (raddr (snd (lmost (Fr DL a k v h r # c) ?l)))"
    unfolding stz_left [OF d] using 3(1) [OF dl] by simp
  then show ?case
    by (subst leftmost.simps) simp
qed

lemma fcell_right_val:
  "right (fcell f y p) = (if fdir f = DL then raddr (fsib f) else y)"
  by (cases "(f, y, p)" rule: fcell.cases) auto

lemma climb_focus:
  "distz c t \<Longrightarrow> t \<noteq> Lf \<Longrightarrow> climb (stz c t n nf) (raddr t) = ok (zaddr (zclimb c t))"
proof (induction c t rule: zclimb.induct)
  case (1 t)
  then show ?case by (subst climb.simps) (simp add: rd_parent_focus)
next
  case (2 a k v h s c t)
  have "raddr s \<noteq> raddr t"
    using 2 by (cases t) (auto simp: distz_def)
  moreover have "heap (stz (Fr DL a k v h s # c) t n nf) a = Some (fcell (Fr DL a k v h s) (raddr t) (cpar c))"
    using heap_stz_frame [of "Fr DL a k v h s" t c n nf] 2 by (simp add: distz_def)
  then have "rd (stz (Fr DL a k v h s # c) t n nf) (Some a) right = ok (raddr s)"
    by (simp add: rd_def)
  ultimately show ?case
    using 2 by (subst climb.simps) (simp add: rd_parent_focus)
next
  case (3 a k v h s c t)
  have hf: "heap (stz (Fr DR a k v h s # c) t n nf) a = Some (fcell (Fr DR a k v h s) (raddr t) (cpar c))"
    using heap_stz_frame [of "Fr DR a k v h s" t c n nf] 3(2) by (simp add: distz_def)
  have dz: "distz c (Nd s a k v h t)" using 3(2) by (simp add: distz_Cons)
  have "stz (Fr DR a k v h s # c) t n nf = stz c (Nd s a k v h t) n nf"
    using stz_right [OF distz_dist [OF dz], of c n nf] by simp
  then have "climb (stz (Fr DR a k v h s # c) t n nf) (Some a) = ok (zaddr (zclimb c (Nd s a k v h t)))"
    using 3(1) [OF dz] by simp
  moreover have "rd (stz (Fr DR a k v h s # c) t n nf) (Some a) right = ok (raddr t)"
    using hf by (simp add: rd_def)
  ultimately show ?case
    using 3(3) by (subst climb.simps) (simp add: rd_parent_focus)
qed

lemma advance_focus:
  assumes "distz c t" "t \<noteq> Lf"
  shows "advance (stz c t n nf) (raddr t) = ok (zaddr (znext c t))"
proof (cases "(c, t)" rule: znext.cases)
  case (1 c)
  then show ?thesis using assms by simp
next
  case (2 c' l a k v h)
  then show ?thesis
    using climb_focus [OF assms, of n nf] by (simp add: advance_def)
next
  case (3 c' l a k v h rl b kb vb hb rr)
  let ?r = "Nd rl b kb vb hb rr"
  have d: "dist (Nd l a k v h ?r)" using assms 3 by (simp add: distz_def)
  have dr: "distz (Fr DR a k v h l # c) ?r"
    using assms 3 by (simp add: distz_Cons)
  have "leftmost (stz c (Nd l a k v h ?r) n nf) (Some b) = ok (raddr (snd (lmost (Fr DR a k v h l # c) ?r)))"
    unfolding stz_right [OF d] using leftmost_focus [OF dr, of n nf] by simp
  then show ?thesis
    using 3 by (cases "lmost (Fr DR a k v h l # c') ?r") (simp add: advance_def)
qed

subsection \<open>Balance\<close>

lemma entries_plug: "entries (plug c t) = cleft c @ entries t @ cright c"
proof (induction c arbitrary: t)
  case Nil
  show ?case by simp
next
  case (Cons f c)
  show ?case by (cases "(f, t)" rule: fill.cases) (simp_all add: Cons)
qed

lemma entries_recalc [simp]: "entries (recalc t) = entries t"
  by (cases t) auto

lemma entries_rotR [simp]: "entries (rotR t) = entries t"
  by (cases t rule: rotR.cases) auto

lemma entries_rotL [simp]: "entries (rotL t) = entries t"
  by (cases t rule: rotL.cases) auto

lemma entries_rebal [simp]: "entries (rebal t) = entries t"
  by (cases t) (auto simp: rebal_def)

lemma entries_fill_cong: "entries t' = entries t \<Longrightarrow> entries (fill f t') = entries (fill f t)"
  by (cases "(f, t)" rule: fill.cases) auto

lemma entries_plug_cong: "entries t' = entries t \<Longrightarrow> entries (plug c t') = entries (plug c t)"
  by (simp add: entries_plug)

lemma entries_fixUp_z: "entries (fixUp_z c t) = entries (plug c t)"
proof (induction c arbitrary: t)
  case Nil
  show ?case by simp
next
  case (Cons f c)
  show ?case
    using entries_plug_cong [OF entries_fill_cong [of "rebal t" t f], of c] by (simp add: Cons)
qed

lemma entries_fix_hole: "entries (fix_hole c t) = entries (plug c t)"
  by (cases c) (simp_all add: entries_fixUp_z)

lemma addrs_fixUp_z: "addrs (fixUp_z c t) = addrs (plug c t)"
proof (induction c arbitrary: t)
  case Nil
  show ?case by simp
next
  case (Cons f c)
  show ?case by (simp add: Cons addrs_plug addrs_fill)
qed

lemma dist_fixUp_z: "dist (fixUp_z c t) = dist (plug c t)"
proof (induction c arbitrary: t)
  case Nil
  show ?case by simp
next
  case (Cons f c)
  have "distz c (fill f (rebal t)) = distz c (fill f t)"
    by (simp add: distz_Cons [symmetric])
  then show ?case by (simp add: Cons dist_plug)
qed

lemma addrs_fix_hole: "addrs (fix_hole c t) = addrs (plug c t)"
  by (cases c) (simp_all add: addrs_fixUp_z)

lemma dist_fix_hole: "dist (fix_hole c t) = dist (plug c t)"
  by (cases c) (simp_all add: dist_fixUp_z)

lemma avl_ht_ge: "avl t \<Longrightarrow> - 1 \<le> ht t"
  by (induction t) auto

lemma avl_ht_Lf: "avl t \<Longrightarrow> ht t = - 1 \<longleftrightarrow> t = Lf"
  using avl_ht_ge [of "lft t"] avl_ht_ge [of "rgt t"] by (cases t) auto

lemma avl_ht_nonneg: "avl t \<Longrightarrow> t \<noteq> Lf \<Longrightarrow> 0 \<le> ht t"
  using avl_ht_ge [of t] avl_ht_Lf [of t] by linarith

lemma avl_plug: "avl (plug c t) \<longleftrightarrow> avl t \<and> cavl c (ht t)"
proof (induction c arbitrary: t)
  case Nil
  show ?case by simp
next
  case (Cons f c)
  obtain d a k v h s where f: "f = Fr d a k v h s" by (cases f)
  show ?case by (cases d) (auto simp: Cons f max.commute)
qed

lemma rebal_avl:
  assumes "avl l" "avl r" "\<bar>ht l - ht r\<bar> \<le> 2"
  shows "avl (rebal (Nd l a k v h r))" (is ?A)
    and "reb_ok (Nd l a k v h r)" (is ?B)
    and "ht (rebal (Nd l a k v h r)) = 1 + max (ht l) (ht r) \<or>
         (\<bar>ht l - ht r\<bar> = 2 \<and> ht (rebal (Nd l a k v h r)) = max (ht l) (ht r))" (is ?C)
proof -
  consider (bal) "ht l \<noteq> ht r + 2" "ht l + 2 \<noteq> ht r"
    | (left) "ht l = ht r + 2" | (right) "ht l + 2 = ht r"
    by blast
  then have "?A \<and> ?B \<and> ?C"
  proof cases
    case bal
    then show ?thesis using assms by (auto simp: rebal_def reb_ok_def)
  next
    case left
    then obtain ll b kb vb hb lr where l: "l = Nd ll b kb vb hb lr"
      using avl_ht_ge [OF assms(2)] by (cases l) auto
    show ?thesis
    proof (cases "ht ll < ht lr")
      case True
      then obtain lrl x kx vx hx lrr where lr: "lr = Nd lrl x kx vx hx lrr"
        using avl_ht_ge [of ll] assms(1) l by (cases lr) auto
      show ?thesis
        using assms left True by (auto simp: rebal_def reb_ok_def l lr)
    next
      case False
      then show ?thesis
        using assms left by (auto simp: rebal_def reb_ok_def l)
    qed
  next
    case right
    then obtain rl b kb vb hb rr where r: "r = Nd rl b kb vb hb rr"
      using avl_ht_ge [OF assms(1)] by (cases r) auto
    show ?thesis
    proof (cases "ht rl > ht rr")
      case True
      then obtain rll x kx vx hx rlr where rl: "rl = Nd rll x kx vx hx rlr"
        using avl_ht_ge [of rr] assms(2) r by (cases rl) auto
      show ?thesis
        using assms right True by (auto simp: rebal_def reb_ok_def r rl)
    next
      case False
      then show ?thesis
        using assms right by (auto simp: rebal_def reb_ok_def r)
    qed
  qed
  then show ?A ?B ?C by simp_all
qed

lemma rebal_fill:
  assumes "avl t" "avl s" "\<bar>h0 - ht s\<bar> \<le> 1" "\<bar>ht t - h0\<bar> \<le> 1" "hf = 1 + max h0 (ht s)"
  shows "avl (rebal (fill (Fr d a k v hf s) t))"
    and "reb_ok (fill (Fr d a k v hf s) t)"
    and "\<bar>ht (rebal (fill (Fr d a k v hf s) t)) - hf\<bar> \<le> 1"
proof -
  have b: "\<bar>ht t - ht s\<bar> \<le> 2" "\<bar>ht s - ht t\<bar> \<le> 2" using assms by linarith+
  show "avl (rebal (fill (Fr d a k v hf s) t))"
    using rebal_avl(1) [OF assms(1,2) b(1)] rebal_avl(1) [OF assms(2,1) b(2)] by (cases d) auto
  show "reb_ok (fill (Fr d a k v hf s) t)"
    using rebal_avl(2) [OF assms(1,2) b(1)] rebal_avl(2) [OF assms(2,1) b(2)] by (cases d) auto
  show "\<bar>ht (rebal (fill (Fr d a k v hf s) t)) - hf\<bar> \<le> 1"
    using rebal_avl(3) [OF assms(1,2) b(1), of a k v hf] rebal_avl(3) [OF assms(2,1) b(2), of a k v hf]
      assms(3,4,5)
    by (cases d) (auto simp: max_def split: if_splits)
qed

lemma fixUp_z_hole: "fixUp_z c t = fix_hole c (rebal t)"
  by (cases c) auto

lemma fix_ok_hole: "fix_ok c t \<longleftrightarrow> reb_ok t \<and> fix_hole_ok c (rebal t)"
  by (cases c) auto

lemma fix_hole_avl:
  "avl t \<Longrightarrow> cavl c h0 \<Longrightarrow> \<bar>ht t - h0\<bar> \<le> 1 \<Longrightarrow> avl (fix_hole c t) \<and> fix_hole_ok c t"
proof (induction c arbitrary: t h0)
  case Nil
  then show ?case by simp
next
  case (Cons f c)
  obtain d a k v hf s where f: "f = Fr d a k v hf s" by (cases f)
  have s: "avl s" "\<bar>h0 - ht s\<bar> \<le> 1" "hf = 1 + max h0 (ht s)" "cavl c hf"
    using Cons.prems(2) by (auto simp: f)
  note rf = rebal_fill [OF Cons.prems(1) s(1,2) Cons.prems(3) s(3), of d a k v]
  have "avl (fix_hole c (rebal (fill f t))) \<and> fix_hole_ok c (rebal (fill f t))"
    using Cons.IH [OF rf(1) s(4) rf(3)] by (simp add: f)
  then show ?case
    using rf(2) by (simp add: fixUp_z_hole fix_ok_hole f)
qed

subsection \<open>Order, and update on the entries\<close>

lemma sorted_mid:
  "sorted_wrt (<) (map fst (A @ (x, v) # B)) \<longleftrightarrow>
     sorted_wrt (<) (map fst A) \<and> sorted_wrt (<) (map fst B) \<and> lt_all A x \<and> gt_all B x \<and>
     (\<forall>a \<in> fst ` set A. \<forall>b \<in> fst ` set B. a < b)"
  by (auto simp: sorted_wrt_append lt_all_def gt_all_def)

lemma sorted_app:
  "sorted_wrt (<) (map fst (A @ B)) \<longleftrightarrow>
     sorted_wrt (<) (map fst A) \<and> sorted_wrt (<) (map fst B) \<and>
     (\<forall>a \<in> fst ` set A. \<forall>b \<in> fst ` set B. a < b)"
  by (auto simp: sorted_wrt_append)

lemma sorted_insert:
  "sorted_wrt (<) (map fst (A @ B)) \<Longrightarrow> lt_all A x \<Longrightarrow> gt_all B x \<Longrightarrow>
   sorted_wrt (<) (map fst (A @ (x, v) # B))"
  by (auto simp: sorted_wrt_append lt_all_def gt_all_def)

lemma sorted_delete:
  "sorted_wrt (<) (map fst (A @ (x, v) # B)) \<Longrightarrow> sorted_wrt (<) (map fst (A @ B))"
  by (auto simp: sorted_wrt_append)

lemma map_of_absent: "lt_all A x \<Longrightarrow> gt_all B x \<Longrightarrow> map_of (A @ B) x = None"
  by (force simp: lt_all_def gt_all_def map_add_def map_of_eq_None_iff split: option.splits)

lemma lt_all_notin: "lt_all A x \<Longrightarrow> map_of A x = None"
  by (force simp: lt_all_def map_of_eq_None_iff)

lemma gt_all_notin: "gt_all B x \<Longrightarrow> map_of B x = None"
  by (force simp: gt_all_def map_of_eq_None_iff)

lemma map_of_mid:
  "lt_all A x \<Longrightarrow> map_of (A @ (x, v) # B) = (map_of (A @ B))(x \<mapsto> v)"
  by (auto simp: fun_eq_iff map_add_def lt_all_notin split: option.splits)

lemma map_of_mid_del:
  "lt_all A x \<Longrightarrow> gt_all B x \<Longrightarrow> map_of (A @ B) = (map_of (A @ (x, v) # B))(x := None)"
  by (auto simp: fun_eq_iff map_add_def lt_all_notin gt_all_notin split: option.splits)

lemma map_of_mid_at: "lt_all A x \<Longrightarrow> map_of (A @ (x, v) # B) x = Some v"
  by (simp add: map_add_def lt_all_notin)

lemma cstep_bounds:
  "sorted_wrt (<) (map fst (cleft c @ E @ cright c)) \<Longrightarrow> list_all (cstep x) c \<Longrightarrow>
   lt_all (cleft c) x \<and> gt_all (cright c) x"
proof (induction c arbitrary: E)
  case Nil
  show ?case by (simp add: lt_all_def gt_all_def)
next
  case (Cons f c)
  obtain d a k v h s where f: "f = Fr d a k v h s" by (cases f)
  show ?case
  proof (cases d)
    case DL
    have "lt_all (cleft c) x \<and> gt_all (cright c) x"
      using Cons.IH [of "E @ (k, v) # entries s"] Cons.prems by (simp add: f DL)
    moreover have "x < k" using Cons.prems(2) by (simp add: f DL cstep_def)
    moreover have "\<forall>b \<in> fst ` set (entries s). k < b"
      using Cons.prems(1) by (auto simp: f DL sorted_wrt_append)
    ultimately show ?thesis
      by (auto simp: f DL lt_all_def gt_all_def)
  next
    case DR
    have "lt_all (cleft c) x \<and> gt_all (cright c) x"
      using Cons.IH [of "entries s @ (k, v) # E"] Cons.prems by (simp add: f DR)
    moreover have "k < x" using Cons.prems(2) by (auto simp: f DR cstep_def)
    moreover have "\<forall>b \<in> fst ` set (entries s). b < k"
      using Cons.prems(1) by (auto simp: f DR sorted_wrt_append)
    ultimately show ?thesis
      by (auto simp: f DR lt_all_def gt_all_def)
  qed
qed

lemma locate_entries:
  assumes "locate x [] t = (c, t')"
  shows "entries t = cleft c @ entries t' @ cright c"
  using locate_plug [OF assms] entries_plug [of c t'] by simp

lemma locate_bounds:
  assumes "locate x [] t = (c, t')" "bst t"
  shows "lt_all (cleft c) x" "gt_all (cright c) x"
  using cstep_bounds [of c "entries t'" x] locate_cstep [OF assms(1)] assms(2)
  by (simp_all add: bst_def locate_entries [OF assms(1)])

lemma locate_found:
  assumes loc: "locate x [] t = (c, Nd l a k v h r)" and b: "bst t"
  shows "k = x" "lt_all (cleft c @ entries l) x" "gt_all (entries r @ cright c) x"
    "entries t = (cleft c @ entries l) @ (x, v) # (entries r @ cright c)"
proof -
  show k: "k = x" using locate_rkey [OF loc] by simp
  show e: "entries t = (cleft c @ entries l) @ (x, v) # (entries r @ cright c)"
    using locate_entries [OF loc] k by simp
  show "lt_all (cleft c @ entries l) x" "gt_all (entries r @ cright c) x"
    using b unfolding bst_def e sorted_mid by simp_all
qed

lemma locate_lookup:
  assumes b: "bst t"
  shows "ritem (snd (locate x [] t)) = map_of (entries t) x"
proof -
  obtain c t' where loc: "locate x [] t = (c, t')" by (cases "locate x [] t")
  show ?thesis
  proof (cases t')
    case Lf
    have "map_of (cleft c @ cright c) x = None"
      using locate_bounds [OF loc b] by (rule map_of_absent)
    then show ?thesis using locate_entries [OF loc] by (simp add: loc Lf del: map_of_append)
  next
    case (Nd l a k v h r)
    note f = locate_found [OF loc [unfolded Nd] b]
    show ?thesis
      unfolding f(4) using map_of_mid_at [OF f(2), of v] by (simp add: loc Nd del: map_of_append)
  qed
qed

lemma ritem_None [simp]: "ritem t = None \<longleftrightarrow> t = Lf"
  by (cases t) auto

lemma locate_Lf_iff: "bst t \<Longrightarrow> snd (locate x [] t) = Lf \<longleftrightarrow> map_of (entries t) x = None"
  using locate_lookup [of t x] ritem_None [of "snd (locate x [] t)"] by simp

lemma rebal_leaf [simp]: "rebal (Nd Lf a k v 0 Lf) = Nd Lf a k v 0 Lf"
  by (simp add: rebal_def)

lemma reb_ok_leaf [simp]: "reb_ok (Nd Lf a k v h Lf)"
  by (simp add: reb_ok_def)

lemma upd_t_props:
  assumes b: "bst t" and a: "avl t"
  shows "bst (upd_t nf k v t)"
    and "map_of (entries (upd_t nf k v t)) = (map_of (entries t))(k \<mapsto> v)"
    and "length (entries (upd_t nf k v t)) =
           (if map_of (entries t) k = None then Suc (length (entries t)) else length (entries t))"
    and "avl (upd_t nf k v t)"
    and "locate k [] t = (c, Lf) \<Longrightarrow> fix_ok c (Nd Lf nf k v 0 Lf)"
    and "addrs (upd_t nf k v t) = (if map_of (entries t) k = None then insert nf (addrs t) else addrs t)"
    and "nf \<notin> addrs t \<Longrightarrow> dist t \<Longrightarrow> dist (upd_t nf k v t)"
proof -
  obtain c' t' where loc: "locate k [] t = (c', t')" by (cases "locate k [] t")
  have pl: "plug c' t' = t" using locate_plug [OF loc] by simp
  have "bst (upd_t nf k v t) \<and>
     map_of (entries (upd_t nf k v t)) = (map_of (entries t))(k \<mapsto> v) \<and>
     length (entries (upd_t nf k v t)) =
           (if map_of (entries t) k = None then Suc (length (entries t)) else length (entries t)) \<and>
     avl (upd_t nf k v t) \<and> (t' = Lf \<longrightarrow> fix_ok c' (Nd Lf nf k v 0 Lf)) \<and>
     addrs (upd_t nf k v t) = (if map_of (entries t) k = None then insert nf (addrs t) else addrs t) \<and>
     (nf \<notin> addrs t \<longrightarrow> dist t \<longrightarrow> dist (upd_t nf k v t))"
  proof (cases t')
    case Lf
    have e: "entries t = cleft c' @ cright c'" using locate_entries [OF loc] Lf by simp
    note bd = locate_bounds [OF loc b]
    have none: "map_of (entries t) k = None" unfolding e using bd by (rule map_of_absent)
    have u: "upd_t nf k v t = fix_hole c' (Nd Lf nf k v 0 Lf)"
      by (simp add: upd_t_def loc Lf fixUp_z_hole)
    have eu: "entries (upd_t nf k v t) = cleft c' @ (k, v) # cright c'"
      by (simp add: u entries_fix_hole entries_plug)
    have "cavl c' (- 1)" using a pl [symmetric] by (simp add: avl_plug Lf)
    then have av: "avl (fix_hole c' (Nd Lf nf k v 0 Lf)) \<and> fix_hole_ok c' (Nd Lf nf k v 0 Lf)"
      by (rule fix_hole_avl [rotated]) simp_all
    have 1: "bst (upd_t nf k v t)"
      using b bd unfolding bst_def eu e by (rule sorted_insert)
    have 2: "map_of (entries (upd_t nf k v t)) = (map_of (entries t))(k \<mapsto> v)"
      unfolding eu e using bd(1) by (rule map_of_mid)
    have 3: "length (entries (upd_t nf k v t)) = Suc (length (entries t))"
      unfolding eu e by simp
    have 4: "avl (upd_t nf k v t)" "fix_ok c' (Nd Lf nf k v 0 Lf)"
      using av by (simp_all add: u fix_ok_hole)
    have at: "addrs t = caddrs c'" and dt: "dist t = cdist c'"
      using arg_cong [OF pl, of addrs] arg_cong [OF pl, of dist]
      by (simp_all add: addrs_plug dist_plug distz_def Lf)
    have 5: "addrs (upd_t nf k v t) = insert nf (addrs t)"
      unfolding u by (simp add: addrs_fix_hole addrs_plug at)
    have 6: "dist (upd_t nf k v t)" if "nf \<notin> addrs t" "dist t"
      unfolding u using that by (simp add: dist_fix_hole dist_plug distz_def at dt)
    show ?thesis
      using 1 2 3 4 5 6 none by (simp add: Lf)
  next
    case (Nd l a k' v' h r)
    note f = locate_found [OF loc [unfolded Nd] b]
    have some: "map_of (entries t) k = Some v'"
      unfolding f(4) by (rule map_of_mid_at [OF f(2)])
    have u: "upd_t nf k v t = plug c' (Nd l a k v h r)"
      by (simp add: upd_t_def loc Nd f(1))
    have eu: "entries (upd_t nf k v t) = (cleft c' @ entries l) @ (k, v) # (entries r @ cright c')"
      by (simp add: u entries_plug)
    have 1: "bst (upd_t nf k v t)"
      using b unfolding bst_def eu f(4) sorted_mid by simp
    have 2: "map_of (entries (upd_t nf k v t)) = (map_of (entries t))(k \<mapsto> v)"
      unfolding eu f(4) map_of_mid [OF f(2)] by simp
    have 3: "length (entries (upd_t nf k v t)) = length (entries t)"
      unfolding eu f(4) by simp
    have "avl (plug c' t')" using a pl by simp
    then have 4: "avl (upd_t nf k v t)"
      unfolding u by (auto simp add: avl_plug Nd)
    have "addrs t = addrs (plug c' t')" "dist t = dist (plug c' t')"
      using pl by simp_all
    then have 5: "addrs (upd_t nf k v t) = addrs t" "dist (upd_t nf k v t) = dist t"
      unfolding u by (simp_all add: addrs_plug dist_plug distz_def Nd)
    show ?thesis
      using 1 2 3 4 5 some by (simp add: Nd)
  qed
  then show "bst (upd_t nf k v t)"
    and "map_of (entries (upd_t nf k v t)) = (map_of (entries t))(k \<mapsto> v)"
    and "length (entries (upd_t nf k v t)) =
           (if map_of (entries t) k = None then Suc (length (entries t)) else length (entries t))"
    and "avl (upd_t nf k v t)"
    and "locate k [] t = (c, Lf) \<Longrightarrow> fix_ok c (Nd Lf nf k v 0 Lf)"
    and "addrs (upd_t nf k v t) = (if map_of (entries t) k = None then insert nf (addrs t) else addrs t)"
    and "nf \<notin> addrs t \<Longrightarrow> dist t \<Longrightarrow> dist (upd_t nf k v t)"
    using loc by auto
qed

subsection \<open>remove on the entries\<close>

lemma rmost_entries:
  "rmost c0 l = (cp, Nd pl p kp vp hp pr) \<Longrightarrow>
   pr = Lf \<and> cright cp = cright c0 \<and> cleft cp @ entries pl @ [(kp, vp)] = cleft c0 @ entries l"
  by (induction c0 l rule: rmost.induct) auto

lemma avl_data: "avl (Nd l a k v h r) = avl (Nd l a k' v' h r)"
  by simp

lemma pluck_z_found:
  assumes loc: "locate k [] t = (c, Nd l a k' v h r)"
  obtains (self) "l = Lf" "pluck_z k t = (c, Nd l a k' v h r)"
  | (pred) cp pl p kp vp hp where "l \<noteq> Lf" "pluck_z k t = (cp, Nd pl p kp vp hp Lf)"
      "rmost (Fr DL a kp vp h r # c) l = (cp, Nd pl p kp vp hp Lf)"
proof (cases "snd (rmost [] l)")
  case Lf
  then have "l = Lf" by simp
  then show ?thesis using self Lf by (simp add: pluck_z_def loc)
next
  case (Nd pl p kp vp hp pr)
  have pr: "pr = Lf" using rmost_rgt [of "[]" l] Nd by simp
  have l: "l \<noteq> Lf" using Nd rmost_Lf [of "[]" l] by auto
  obtain cp where r: "rmost (Fr DL a kp vp h r # c) l = (cp, Nd pl p kp vp hp Lf)"
    using rmost_snd [of "Fr DL a kp vp h r # c" l] Nd pr
    by (cases "rmost (Fr DL a kp vp h r # c) l") simp
  show ?thesis
    using pred [OF l _ r] Nd r by (simp add: pluck_z_def loc)
qed

lemma rem_t_props:
  assumes b: "bst t" and a: "avl t" and some: "map_of (entries t) k \<noteq> None"
  shows "bst (rem_t k t)"
    and "map_of (entries (rem_t k t)) = (map_of (entries t))(k := None)"
    and "Suc (length (entries (rem_t k t))) = length (entries t)"
    and "avl (rem_t k t)"
    and "addrs (rem_t k t) \<subseteq> addrs t"
    and "dist t \<Longrightarrow> dist (rem_t k t)"
    and "pluck_z k t = (cp, Nd pl p kp vp hp pr) \<Longrightarrow>
        (pl = Lf \<or> (pr = Lf \<and> rgt pl = Lf)) \<and> fix_hole_ok cp (if pl = Lf then pr else pl)"
    and "pluck_z k t = (cp, Nd pl p kp vp hp pr) \<Longrightarrow> pl = Lf \<or> lft pl = Lf"
proof -
  obtain c t' where loc0: "locate k [] t = (c, t')" by (cases "locate k [] t")
  have "t' \<noteq> Lf" using locate_Lf_iff [OF b, of k] some loc0 by simp
  then obtain l a k' v h r where loc: "locate k [] t = (c, Nd l a k' v h r)"
    using loc0 by (cases t') auto
  note f = locate_found [OF loc b]
  have pl: "plug c (Nd l a k' v h r) = t" using locate_plug [OF loc] by simp
  let ?A = "cleft c @ entries l" and ?B = "entries r @ cright c"
  have main: "entries (rem_t k t) = ?A @ ?B \<and> avl (rem_t k t) \<and> addrs (rem_t k t) \<subseteq> addrs t \<and>
      (dist t \<longrightarrow> dist (rem_t k t)) \<and>
      (\<forall>cp pl p kp vp hp pr. pluck_z k t = (cp, Nd pl p kp vp hp pr) \<longrightarrow>
        (pl = Lf \<or> (pr = Lf \<and> rgt pl = Lf \<and> lft pl = Lf)) \<and>
        fix_hole_ok cp (if pl = Lf then pr else pl))"
    using loc
  proof (cases rule: pluck_z_found)
    case self
    have u: "rem_t k t = fix_hole c r" by (simp add: rem_t_def self)
    have av: "avl r" "cavl c h" "h = 1 + max (- 1) (ht r)"
      using a pl [symmetric] by (auto simp: avl_plug self)
    have "\<bar>ht r - h\<bar> \<le> 1" using av(3) avl_ht_ge [OF av(1)] by linarith
    then have fh: "avl (fix_hole c r) \<and> fix_hole_ok c r"
      by (rule fix_hole_avl [OF av(1,2)])
    have at: "addrs t = insert a (addrs r \<union> caddrs c)" and dt: "dist t = distz c (Nd Lf a k' v h r)"
      using arg_cong [OF pl, of addrs] arg_cong [OF pl, of dist]
      by (simp_all add: addrs_plug dist_plug self)
    have 1: "entries (rem_t k t) = ?A @ ?B"
      unfolding u by (simp add: entries_fix_hole entries_plug self)
    have 2: "addrs (rem_t k t) \<subseteq> addrs t"
      unfolding u at by (auto simp: addrs_fix_hole addrs_plug)
    have 3: "dist (rem_t k t)" if "dist t"
      unfolding u using that by (auto simp: dt distz_def dist_fix_hole dist_plug)
    show ?thesis
      using 1 2 3 fh by (simp add: u self)
  next
    case (pred cp pl p kp vp hp)
    have u: "rem_t k t = fix_hole cp pl" by (simp add: rem_t_def pred)
    note re = rmost_entries [OF pred(3)]
    have pl2: "plug cp (Nd pl p kp vp hp Lf) = plug c (Nd l a kp vp h r)"
      using rmost_plug [OF pred(3)] by simp
    have "avl (plug c (Nd l a k' v h r))" using a pl by simp
    then have "avl (plug c (Nd l a kp vp h r))"
      by (auto simp add: avl_plug)
    then have av: "avl pl" "cavl cp hp" "\<bar>ht pl + 1\<bar> \<le> 1" "hp = 1 + max (ht pl) (- 1)"
      unfolding pl2 [symmetric] by (auto simp: avl_plug)
    have "\<bar>ht pl - hp\<bar> \<le> 1" using av(3,4) avl_ht_ge [OF av(1)] by linarith
    then have fh: "avl (fix_hole cp pl) \<and> fix_hole_ok cp pl"
      by (rule fix_hole_avl [OF av(1,2)])
    have one: "pl = Lf \<or> (rgt pl = Lf \<and> lft pl = Lf)"
    proof (cases pl)
      case Lf
      then show ?thesis by simp
    next
      case (Nd pll q kq vq hq plr)
      have "hq \<le> 0" using av(3) Nd by simp
      then have "ht plr = - 1" "ht pll = - 1"
        using av(1) avl_ht_ge [of pll] avl_ht_ge [of plr] by (simp_all add: Nd)
      then show ?thesis using av(1) avl_ht_Lf [of plr] avl_ht_Lf [of pll] by (simp add: Nd)
    qed
    have at: "addrs t = addrs (plug cp (Nd pl p kp vp hp Lf))"
      and dt: "dist t = dist (plug cp (Nd pl p kp vp hp Lf))"
      unfolding pl2 using arg_cong [OF pl, of addrs] arg_cong [OF pl, of dist]
      by (simp_all add: addrs_plug dist_plug distz_def)
    have 1: "entries (rem_t k t) = ?A @ ?B"
      unfolding u using re by (simp add: entries_fix_hole entries_plug)
    have 2: "addrs (rem_t k t) \<subseteq> addrs t"
      unfolding u at by (auto simp: addrs_fix_hole addrs_plug)
    have 3: "dist (rem_t k t)" if "dist t"
      unfolding u using that by (auto simp: dt distz_def dist_fix_hole dist_plug)
    show ?thesis
      using 1 2 3 fh one by (simp add: u pred)
  qed
  have e: "entries (rem_t k t) = ?A @ ?B" using main by simp
  show "bst (rem_t k t)"
    using b unfolding bst_def e f(4) by (rule sorted_delete)
  show "map_of (entries (rem_t k t)) = (map_of (entries t))(k := None)"
    unfolding e f(4) using f(2,3) by (rule map_of_mid_del)
  show "Suc (length (entries (rem_t k t))) = length (entries t)"
    unfolding e f(4) by simp
  show "avl (rem_t k t)" "addrs (rem_t k t) \<subseteq> addrs t" "dist t \<Longrightarrow> dist (rem_t k t)"
    using main by simp_all
  show "pluck_z k t = (cp, Nd pl p kp vp hp pr) \<Longrightarrow>
        (pl = Lf \<or> (pr = Lf \<and> rgt pl = Lf)) \<and> fix_hole_ok cp (if pl = Lf then pr else pl)"
    using main by blast
  show "pluck_z k t = (cp, Nd pl p kp vp hp pr) \<Longrightarrow> pl = Lf \<or> lft pl = Lf"
    using main by blast
qed

subsection \<open>Traversal\<close>

lemma addr_zipper:
  "x \<in> addrs t \<Longrightarrow> \<exists>c' t'. plug c' t' = plug c t \<and> raddr t' = Some x"
proof (induction t arbitrary: c)
  case Lf
  then show ?case by simp
next
  case (Nd l a k v h r)
  consider "x = a" | "x \<in> addrs l" | "x \<in> addrs r" using Nd.prems by auto
  then show ?case
  proof cases
    case 1
    then show ?thesis by (intro exI [of _ c] exI [of _ "Nd l a k v h r"]) simp
  next
    case 2
    from Nd.IH(1) [OF 2, of "Fr DL a k v h r # c"] show ?thesis by simp
  next
    case 3
    from Nd.IH(2) [OF 3, of "Fr DR a k v h l # c"] show ?thesis by simp
  qed
qed

lemma lmost_rest:
  "lmost c t = (c', t') \<Longrightarrow> t \<noteq> Lf \<Longrightarrow>
   t' \<noteq> Lf \<and> lft t' = Lf \<and> rest c' t' = entries t @ cright c"
  by (induction c t rule: lmost.induct) auto

lemma zclimb_None: "zclimb c t = None \<Longrightarrow> cright c = []"
  by (induction c t rule: zclimb.induct) auto

lemma zclimb_Some:
  "zclimb c t = Some (c', t') \<Longrightarrow> t' \<noteq> Lf \<and> plug c' t' = plug c t \<and> rest c' t' = cright c"
  by (induction c t rule: zclimb.induct) auto

lemma znext_None: "znext c t = None \<Longrightarrow> t \<noteq> Lf \<Longrightarrow> tl (rest c t) = []"
  by (cases "(c, t)" rule: znext.cases) (auto dest: zclimb_None)

lemma znext_Some:
  "znext c t = Some (c', t') \<Longrightarrow> t' \<noteq> Lf \<and> plug c' t' = plug c t \<and> rest c' t' = tl (rest c t)"
proof (cases "(c, t)" rule: znext.cases)
  case (1 c0)
  assume "znext c t = Some (c', t')"
  then show ?thesis using 1 by simp
next
  case (2 c0 l a k v h)
  assume "znext c t = Some (c', t')"
  then show ?thesis using 2 zclimb_Some [of c t c' t'] by simp
next
  case (3 c0 l a k v h rl b kb vb hb rr)
  assume z: "znext c t = Some (c', t')"
  then have lm: "lmost (Fr DR a k v h l # c) (Nd rl b kb vb hb rr) = (c', t')" using 3 by simp
  show ?thesis
    using lmost_rest [OF lm] lmost_plug [OF lm] 3 by simp
qed

lemma end_avl_ok [simp]: "end_avl m = ok None"
  by (simp add: end_avl_def AVLIterator_def)

lemma traverse_from_None [simp]: "traverse_from m None = ok []"
  by (subst traverse_from.simps) simp

lemma rest_Cons: "t \<noteq> Lf \<Longrightarrow> rest c t = (the (rkey t), the (ritem t)) # tl (rest c t)"
  by (cases t) auto

lemma traverse_from_focus:
  "distz c t \<Longrightarrow> t \<noteq> Lf \<Longrightarrow> traverse_from (stz c t n nf) (raddr t) = ok (rest c t)"
proof (induction "length (rest c t)" arbitrary: c t rule: less_induct)
  case less
  obtain l a k v h r where t: "t = Nd l a k v h r" using less.prems(2) by (cases t) auto
  have adv: "advance (stz c t n nf) (raddr t) = ok (zaddr (znext c t))"
    by (rule advance_focus [OF less.prems])
  have "bnd (traverse_from (stz c t n nf) (zaddr (znext c t))) (\<lambda>kvs. ok ((k, v) # kvs)) = ok (rest c t)"
  proof (cases "znext c t")
    case None
    then show ?thesis using znext_None [OF None less.prems(2)] by (simp add: t)
  next
    case (Some z)
    obtain c' t' where z: "z = (c', t')" by (cases z)
    note zs = znext_Some [OF Some [unfolded z]]
    have dz': "distz c' t'" using zs less.prems(1) by (simp add: dist_plug [symmetric])
    have "stz c t n nf = stz c' t' n nf"
      using zs less.prems(1) dz' by (simp add: stz_plug)
    moreover have "traverse_from (stz c' t' n nf) (raddr t') = ok (rest c' t')"
      using less.hyps [of c' t'] zs dz' by (simp add: t)
    moreover have "zaddr (znext c t) = raddr t'" by (simp add: Some z)
    moreover have "rest c t = (k, v) # rest c' t'" using zs by (simp add: t)
    ultimately show ?thesis by simp
  qed
  then show ?case
    using adv by (subst traverse_from.simps) (simp add: t)
qed

lemma traverse_st:
  assumes "dist t"
  shows "traverse (st t n nf) = ok (entries t)"
proof (cases t)
  case Lf
  then show ?thesis by (simp add: traverse_def begin_avl_def AVLIterator_def)
next
  case (Nd l a k v h r)
  obtain c' t' where lm: "lmost [] t = (c', t')" by (cases "lmost [] t")
  have dz: "distz [] t" using assms by (simp add: distz_def)
  have dz': "distz c' t'" using lmost_plug [OF lm] dz by (simp add: dist_plug [symmetric])
  have e: "stz c' t' n nf = st t n nf"
    using lmost_plug [OF lm] dz' by (simp add: stz_plug)
  have "leftmost (st t n nf) (raddr t) = ok (raddr t')"
    using leftmost_focus [OF dz, of n nf] lm Nd by (simp add: stz_Nil)
  moreover have "traverse_from (st t n nf) (raddr t') = ok (entries t)"
    using traverse_from_focus [OF dz', of n nf] lmost_rest [OF lm] Nd by (simp add: e)
  ultimately show ?thesis
    by (simp add: traverse_def begin_avl_def AVLIterator_def Nd)
qed

subsection \<open>The invariant of reachable maps\<close>

lemma tinv_dist: "tinv t nf \<Longrightarrow> dist t"
  by (simp add: tinv_def)

lemma hasKey_stc: "tinv t nf \<Longrightarrow> hasKey (stc t nf) k = ok (amap t k \<noteq> None)"
  using locate_Lf_iff [of t k] by (simp add: stc_def hasKey_st tinv_def amap_def)

lemma at_stc:
  "tinv t nf \<Longrightarrow> at (stc t nf) k = (case amap t k of None \<Rightarrow> fail Assert_at | Some v \<Rightarrow> ok v)"
  using locate_lookup [of t k] by (simp add: stc_def at_st tinv_def amap_def)

lemma traverse_stc: "tinv t nf \<Longrightarrow> traverse (stc t nf) = ok (entries t)"
  by (simp add: stc_def traverse_st tinv_def)

lemma update_stc_eq:
  assumes "tinv t nf"
  shows "update (stc t nf) k v =
     ok (stc (upd_t nf k v t) (if amap t k = None then Suc nf else nf))"
proof -
  have d: "dist t" and a: "avl t" and b: "bst t" and fr: "nf \<notin> addrs t"
    using assms by (auto simp: tinv_def)
  note p = upd_t_props [OF b a, where nf = nf and k = k and v = v]
  have u: "update (st t n nf) k v =
     ok (if snd (locate k [] t) = Lf then st (upd_t nf k v t) (n + 1) (Suc nf)
         else st (upd_t nf k v t) n nf)" for n
    using update_st [OF d fr, where k = k and v = v and n = n] p(5) by simp
  show ?thesis
    using locate_Lf_iff [OF b, of k] p(3) by (simp add: u stc_def amap_def)
qed

lemma update_stc_inv:
  assumes "tinv t nf"
  shows "tinv (upd_t nf k v t) (if amap t k = None then Suc nf else nf)"
    and "amap (upd_t nf k v t) = (amap t)(k \<mapsto> v)"
    and "length (entries (upd_t nf k v t)) =
       (if amap t k = None then Suc (length (entries t)) else length (entries t))"
proof -
  have d: "dist t" and a: "avl t" and b: "bst t" and fr: "nf \<notin> addrs t"
    using assms by (auto simp: tinv_def)
  note p = upd_t_props [OF b a, where nf = nf and k = k and v = v]
  show "tinv (upd_t nf k v t) (if amap t k = None then Suc nf else nf)"
    using assms p(1,4,6) p(7) [OF fr d] by (auto simp: tinv_def amap_def)
  show "amap (upd_t nf k v t) = (amap t)(k \<mapsto> v)"
    using p(2) by (simp add: amap_def)
  show "length (entries (upd_t nf k v t)) =
       (if amap t k = None then Suc (length (entries t)) else length (entries t))"
    using p(3) by (simp add: amap_def)
qed

lemma update_stc:
  assumes "tinv t nf"
  shows "\<exists>t' nf'. update (stc t nf) k v = ok (stc t' nf') \<and> tinv t' nf' \<and>
     amap t' = (amap t)(k \<mapsto> v) \<and>
     length (entries t') = (if amap t k = None then Suc (length (entries t)) else length (entries t))"
  using update_stc_eq [OF assms, of k v] update_stc_inv [OF assms, of k v] by blast

lemma remove_stc_absent:
  assumes "tinv t nf" "amap t k = None"
  shows "remove (stc t nf) k = fail Assert_remove"
proof -
  have d: "dist t" and b: "bst t" using assms by (auto simp: tinv_def)
  have l: "snd (locate k [] t) = Lf" using locate_Lf_iff [OF b, of k] assms(2) by (simp add: amap_def)
  then have "snd (pluck_z k t) = Lf" by (simp add: pluck_z_Lf)
  then show ?thesis
    by (cases "pluck_z k t") (simp add: remove_def stc_def remove_find_st [OF d])
qed

lemma remove_stc_eq:
  assumes "tinv t nf" "amap t k \<noteq> None"
  shows "remove (stc t nf) k = ok (stc (rem_t k t) nf)"
proof -
  have d: "dist t" and a: "avl t" and b: "bst t"
    using assms by (auto simp: tinv_def)
  have some: "map_of (entries t) k \<noteq> None" using assms(2) by (simp add: amap_def)
  note p = rem_t_props [OF b a some]
  have l: "snd (locate k [] t) \<noteq> Lf" using locate_Lf_iff [OF b, of k] some by simp
  have "remove (st t n nf) k = ok (st (rem_t k t) (n - 1) nf)" for n
    using remove_st [OF d, where k = k and n = n and nf = nf] p(7) l by simp
  moreover have "(of_nat (length (entries t)) :: 32 word) - 1 = of_nat (length (entries (rem_t k t)))"
    using p(3) [symmetric] by simp
  ultimately show ?thesis
    by (simp add: stc_def)
qed

lemma remove_stc_inv:
  assumes "tinv t nf" "amap t k \<noteq> None"
  shows "tinv (rem_t k t) nf"
    and "amap (rem_t k t) = (amap t)(k := None)"
    and "Suc (length (entries (rem_t k t))) = length (entries t)"
proof -
  have d: "dist t" and a: "avl t" and b: "bst t"
    using assms by (auto simp: tinv_def)
  have some: "map_of (entries t) k \<noteq> None" using assms(2) by (simp add: amap_def)
  note p = rem_t_props [OF b a some]
  show "tinv (rem_t k t) nf"
    using assms(1) p(1,4,5) p(6) [OF d] by (auto simp: tinv_def)
  show "amap (rem_t k t) = (amap t)(k := None)"
    using p(2) by (simp add: amap_def)
  show "Suc (length (entries (rem_t k t))) = length (entries t)"
    by (rule p(3))
qed

lemma remove_stc:
  assumes "tinv t nf" "amap t k \<noteq> None"
  shows "\<exists>t'. remove (stc t nf) k = ok (stc t' nf) \<and> tinv t' nf \<and>
     amap t' = (amap t)(k := None) \<and> Suc (length (entries t')) = length (entries t)"
  using remove_stc_eq [OF assms] remove_stc_inv [OF assms] by blast

lemma AVLMap_new_stc: "AVLMap_new = stc Lf 0"
  by (simp add: AVLMap_new_def stc_def st_def)

lemma tinv_Lf [simp]: "tinv Lf nf"
  by (simp add: tinv_def bst_def)

lemma heap_stc_zipper:
  assumes "tinv t nf" "heap (stc t nf) x = Some nd"
  obtains c l a k v h r where "plug c (Nd l a k v h r) = t" "a = x" "distz c (Nd l a k v h r)"
    "stc t nf = stz c (Nd l a k v h r) (of_nat (length (entries t))) nf"
    "nd = \<lparr>key = k, item = v, left = raddr l, right = raddr r, parent = cpar c, height = h\<rparr>"
proof -
  have d: "dist t" using assms(1) by (simp add: tinv_def)
  have "heap_of t None x = Some nd" using assms(2) by (simp add: stc_def)
  then have "x \<in> dom (heap_of t None)" by (rule domI)
  then have "x \<in> addrs t" by simp
  then obtain c t' where z: "plug c t' = plug [] t" "raddr t' = Some x"
    using addr_zipper [of x t "[]"] by blast
  then obtain l a k v h r where t': "t' = Nd l a k v h r" "a = x" by (cases t') auto
  have dz: "distz c t'" using z(1) d by (simp add: dist_plug [symmetric])
  have e: "stc t nf = stz c t' (of_nat (length (entries t))) nf"
    using stz_plug [OF dz] z(1) by (simp add: stc_def)
  have "heap (stz c t' (of_nat (length (entries t))) nf) x = Some nd"
    using assms(2) e by simp
  then have "nd = \<lparr>key = k, item = v, left = raddr l, right = raddr r, parent = cpar c, height = h\<rparr>"
    unfolding t' using heap_stz_focus [of c l a k v h r] t'(2) by simp
  then show ?thesis
    using that [of c l a k v h r] z(1) t' dz e by simp
qed

lemma tinv_item:
  assumes "tinv (plug c (Nd l a k v h r)) nf"
  shows "tinv (plug c (Nd l a k v' h r)) nf"
    and "amap (plug c (Nd l a k v' h r)) = (amap (plug c (Nd l a k v h r)))(k \<mapsto> v')"
    and "length (entries (plug c (Nd l a k v' h r))) = length (entries (plug c (Nd l a k v h r)))"
proof -
  let ?A = "cleft c @ entries l" and ?B = "entries r @ cright c"
  have e: "entries (plug c (Nd l a k x h r)) = ?A @ (k, x) # ?B" for x
    by (simp add: entries_plug)
  have s: "sorted_wrt (<) (map fst (?A @ (k, v) # ?B))"
    using assms unfolding tinv_def bst_def e by simp
  then have lt: "lt_all ?A k" unfolding sorted_mid by simp
  have "avl (plug c (Nd l a k v' h r))"
    using assms by (auto simp: tinv_def avl_plug)
  moreover have "bst (plug c (Nd l a k v' h r))"
    using s unfolding bst_def e sorted_mid by simp
  ultimately show "tinv (plug c (Nd l a k v' h r)) nf"
    using assms by (simp add: tinv_def dist_plug addrs_plug distz_def)
  show "amap (plug c (Nd l a k v' h r)) = (amap (plug c (Nd l a k v h r)))(k \<mapsto> v')"
    unfolding amap_def e map_of_mid [OF lt] by simp
  show "length (entries (plug c (Nd l a k v' h r))) = length (entries (plug c (Nd l a k v h r)))"
    unfolding e by simp
qed

lemma assign_stc:
  assumes "tinv t nf" "assign (stc t nf) p v = ok m'"
  shows "\<exists>t'. m' = stc t' nf \<and> tinv t' nf \<and> length (entries t') = length (entries t)"
proof -
  obtain x nd where p: "p = Some x" and h: "heap (stc t nf) x = Some nd"
    using assms(2) by (auto simp: assign_def wr_def split: option.splits)
  from assms(1) h obtain c l a k v0 h' r where z: "plug c (Nd l a k v0 h' r) = t" "a = x"
      "distz c (Nd l a k v0 h' r)"
      "stc t nf = stz c (Nd l a k v0 h' r) (of_nat (length (entries t))) nf"
    by (rule heap_stc_zipper)
  let ?t' = "plug c (Nd l a k v h' r)"
  have ti: "tinv ?t' nf" and len: "length (entries ?t') = length (entries t)"
    using tinv_item(1,3) [of c l a k v0 h' r nf v] assms(1) z(1) by simp_all
  have dz: "distz c (Nd l a k v h' r)" using z(3) by (simp add: distz_def)
  have "assign (stc t nf) p v = ok (stz c (Nd l a k v h' r) (of_nat (length (entries t))) nf)"
    unfolding z(4) by (simp add: assign_def p z(2) [symmetric] wr_focus_data)
  then have "m' = stc ?t' nf"
    using assms(2) stz_plug [OF dz] len by (simp add: stc_def)
  then show ?thesis using ti len by blast
qed

lemma index_stc:
  assumes "tinv t nf"
  shows "\<exists>t' nf' x nd. index d (stc t nf) k = ok (stc t' nf', Some x) \<and> tinv t' nf' \<and>
     heap (stc t' nf') x = Some nd \<and> key nd = k \<and> amap t' k = Some (item nd) \<and>
     (amap t k \<noteq> None \<longrightarrow> t' = t \<and> nf' = nf) \<and>
     (amap t k = None \<longrightarrow> update (stc t nf) k d = ok (stc t' nf') \<and> item nd = d \<and>
        length (entries t') = Suc (length (entries t)))"
proof -
  obtain t' nf' where u: "update (stc t nf) k d = ok (stc t' nf')" "tinv t' nf'"
      "amap t' = (amap t)(k \<mapsto> d)"
      "length (entries t') = (if amap t k = None then Suc (length (entries t)) else length (entries t))"
    using update_stc [OF assms, of k d] by blast
  define t1 where "t1 = (if amap t k = None then t' else t)"
  define nf1 where "nf1 = (if amap t k = None then nf' else nf)"
  have ti: "tinv t1 nf1" using assms u(2) by (simp add: t1_def nf1_def)
  have hk: "hasKey (stc t nf) k = ok (amap t k \<noteq> None)"
    by (rule hasKey_stc [OF assms])
  have 1: "(if \<not> amap t k \<noteq> None then update (stc t nf) k d else ok (stc t nf)) = ok (stc t1 nf1)"
    using u(1) by (simp add: t1_def nf1_def)
  obtain v1 where v1: "amap t1 k = Some v1" "amap t k = None \<longrightarrow> v1 = d"
    using u(3) by (cases "amap t k") (auto simp: t1_def)
  have d1: "dist t1" and b1: "bst t1" using ti by (auto simp: tinv_def)
  obtain c t'' where loc: "locate k [] t1 = (c, t'')" by (cases "locate k [] t1")
  have "ritem t'' = Some v1" using locate_lookup [OF b1, of k] v1 loc by (simp add: amap_def)
  then obtain l a k' h r where t'': "t'' = Nd l a k' v1 h r" by (cases t'') auto
  have k': "k' = k" using locate_rkey [OF loc] t'' by simp
  have dz: "distz c t''" using locate_distz [OF loc] d1 by (simp add: distz_def)
  have e: "stc t1 nf1 = stz c t'' (of_nat (length (entries t1))) nf1"
    using locate_stz [OF loc, of "of_nat (length (entries t1))" nf1] d1
    by (simp add: stc_def distz_def stz_Nil)
  have fn: "findNode (stc t1 nf1) k = ok (Some a)"
    using findNode_st [OF d1, of _ nf1 k] by (simp add: stc_def loc t'')
  have hp: "heap (stc t1 nf1) a = Some \<lparr>key = k, item = v1, left = raddr l, right = raddr r, parent = cpar c, height = h\<rparr>"
    unfolding e t'' k' by (rule heap_stz_focus)
  have ri: "rd (stc t1 nf1) (Some a) item = ok v1"
    using hp by (simp add: rd_def)
  have "index d (stc t nf) k = ok (stc t1 nf1, Some a)"
    unfolding index_def hk bnd_ok 1 fn ri ..
  then show ?thesis
    using ti hp v1 u
    by (intro exI [of _ t1] exI [of _ nf1] exI [of _ a] exI) (auto simp: t1_def nf1_def)
qed

lemma reachable_inv: "reachable m \<Longrightarrow> map_inv m"
proof (induction rule: reachable.induct)
  case init
  show ?case unfolding map_inv_def AVLMap_new_stc using tinv_Lf by blast
next
  case (upd m k v m')
  then obtain t nf where m: "m = stc t nf" "tinv t nf" by (auto simp: map_inv_def)
  from update_stc [OF m(2), of k v] upd(2) show ?case
    unfolding m(1) map_inv_def by auto
next
  case (rem m k m')
  then obtain t nf where m: "m = stc t nf" "tinv t nf" by (auto simp: map_inv_def)
  show ?case
  proof (cases "amap t k = None")
    case True
    then show ?thesis using remove_stc_absent [OF m(2) True] rem(2) by (simp add: m(1))
  next
    case False
    from remove_stc [OF m(2) False] rem(2) show ?thesis
      unfolding m(1) map_inv_def by auto
  qed
next
  case (idx m d k m' p)
  then obtain t nf where m: "m = stc t nf" "tinv t nf" by (auto simp: map_inv_def)
  from index_stc [OF m(2), of d k] idx(2) show ?case
    unfolding m(1) map_inv_def by auto
next
  case (asg m p v m')
  then obtain t nf where m: "m = stc t nf" "tinv t nf" by (auto simp: map_inv_def)
  from assign_stc [OF m(2) asg(2) [unfolded m(1)]] show ?case
    unfolding map_inv_def by auto
qed

section \<open>The claims of the specification\<close>

lemma avl_hgt: "avl t \<Longrightarrow> ht t = hgt t"
  by (induction t) auto

lemma avl_balanced: "avl t \<Longrightarrow> balanced t"
  by (induction t) (auto simp: avl_hgt)

lemma bst_ordered: "bst t \<Longrightarrow> ordered t"
  unfolding bst_def by (induction t) (auto simp: sorted_wrt_append)

lemma stc_represents: "tinv t nf \<Longrightarrow> represents (stc t nf) t"
  by (simp add: represents_def stc_def tinv_def)

lemma reachable_cases:
  assumes "reachable m"
  obtains t nf where "m = stc t nf" "tinv t nf"
  using reachable_inv [OF assms] by (auto simp: map_inv_def)

lemma childHeights_stc:
  assumes "tinv t nf" "heap (stc t nf) x = Some nd"
  shows "\<exists>lh rh. childHeights (stc t nf) (Some x) = ok (lh, rh) \<and> \<bar>lh - rh\<bar> \<le> 1 \<and>
     height nd = 1 + max lh rh"
proof -
  from assms obtain c l a k v h r where z: "plug c (Nd l a k v h r) = t" "a = x"
      "distz c (Nd l a k v h r)"
      "stc t nf = stz c (Nd l a k v h r) (of_nat (length (entries t))) nf"
      "nd = \<lparr>key = k, item = v, left = raddr l, right = raddr r, parent = cpar c, height = h\<rparr>"
    by (rule heap_stc_zipper)
  have "avl (plug c (Nd l a k v h r))" using assms(1) z(1) by (simp add: tinv_def)
  then have "\<bar>ht l - ht r\<bar> \<le> 1" "h = 1 + max (ht l) (ht r)" by (simp_all add: avl_plug)
  moreover have "childHeights (stc t nf) (Some x) = ok (ht l, ht r)"
    unfolding z(4) z(2) [symmetric] using z(3) by (simp add: childHeights_focus distz_def)
  ultimately show ?thesis by (simp add: z(5))
qed

lemma tinv_eval:
  "tinv t nf \<longleftrightarrow> dist t \<and> (\<forall>a \<in> addrs t. a < nf) \<and> avl t \<and> sorted_wrt (<) (map fst (entries t))"
  by (simp add: tinv_def bst_def)

lemma example_steps:
  "update (AVLMap_new :: (nat, nat) AVLMap) 1 10 = ok (stc (Nd Lf 0 1 10 0 Lf) 1)"
  "update (stc (Nd Lf 0 (1::nat) (10::nat) 0 Lf) 1) 2 20 = ok (stc (Nd Lf 0 1 10 1 (Nd Lf 1 2 20 0 Lf)) 2)"
  "update (stc (Nd Lf 0 1 10 1 (Nd Lf 1 2 20 0 Lf)) 2) 3 30 = ok example_map"
proof -
  show "update (AVLMap_new :: (nat, nat) AVLMap) 1 10 = ok (stc (Nd Lf 0 1 10 0 Lf) 1)"
    unfolding AVLMap_new_stc
    by (subst update_stc_eq) (simp_all add: tinv_eval amap_def upd_t_def)
  show "update (stc (Nd Lf 0 (1::nat) (10::nat) 0 Lf) 1) 2 20 = ok (stc (Nd Lf 0 1 10 1 (Nd Lf 1 2 20 0 Lf)) 2)"
    by (subst update_stc_eq) (simp_all add: tinv_eval amap_def upd_t_def rebal_def numeral_2_eq_2)
  show "update (stc (Nd Lf 0 1 10 1 (Nd Lf 1 2 20 0 Lf)) 2) 3 30 = ok example_map"
    unfolding example_map_def example_tree_def
    by (subst update_stc_eq) (simp_all add: tinv_eval amap_def upd_t_def rebal_def numeral_3_eq_3)
qed

lemma example_reachable: "reachable example_map"
  by (rule reachable.upd [OF reachable.upd [OF reachable.upd [OF reachable.init example_steps(1)]
        example_steps(2)] example_steps(3)])

lemma example_tinv: "tinv example_tree 3"
  by (simp add: tinv_eval example_tree_def)

text \<open>
  Claim C1. In every map reachable from the empty map, every node satisfies the AVL
  balance condition (the heights of its subtrees, \<open>-1\<close> for a missing child, differ by
  at most 1) and records as its height 1 plus the maximum of its children's heights.
  The first part states it for the tree that the store represents, with the heights
  \<open>hgt\<close> counted on the tree; the second for every node object of the store, with the
  heights that \<^verbatim>\<open>childHeights\<close> reads from the children.
\<close>

theorem C1_avl_balance:
  assumes "reachable m"
  shows "(\<exists>t. represents m t \<and> balanced t) \<and>
     (\<forall>a n. heap m a = Some n \<longrightarrow>
        (\<exists>lh rh. childHeights m (Some a) = ok (lh, rh) \<and> \<bar>lh - rh\<bar> \<le> 1 \<and>
           height n = 1 + max lh rh))"
proof -
  from assms obtain t nf where m: "m = stc t nf" "tinv t nf" by (rule reachable_cases)
  have "represents m t \<and> balanced t"
    using m stc_represents [OF m(2)] avl_balanced [of t] by (simp add: tinv_def)
  then show ?thesis
    using childHeights_stc [OF m(2)] unfolding m(1) by blast
qed

theorem C1_avl_balance_witness:
  "reachable example_map \<and>
   (\<exists>t. represents example_map t \<and> balanced t) \<and>
   heap example_map 1 = Some \<lparr>key = 2, item = 20, left = Some 0, right = Some 2, parent = None, height = 1\<rparr> \<and>
   (\<exists>lh rh. childHeights example_map (Some 1) = ok (lh, rh) \<and> \<bar>lh - rh\<bar> \<le> 1 \<and>
      height \<lparr>key = 2::nat, item = 20::nat, left = Some 0, right = Some 2, parent = None, height = 1\<rparr> = 1 + max lh rh)"
proof -
  have h: "heap example_map 1 = Some \<lparr>key = 2, item = 20, left = Some 0, right = Some 2, parent = None, height = 1\<rparr>"
    by (simp add: example_map_def example_tree_def stc_def)
  show ?thesis
    using C1_avl_balance [OF example_reachable] h example_reachable by blast
qed

lemma amap_keys: "amap t k \<noteq> None \<longleftrightarrow> k \<in> set (map fst (entries t))"
  by (simp add: amap_def map_of_eq_None_iff)

lemma filter_key:
  "sorted_wrt (<) (map fst (xs :: ('k::linorder \<times> 't) list)) \<Longrightarrow> map_of xs k = Some v \<Longrightarrow>
   filter (\<lambda>e. fst e = k) xs = [(k, v)]"
proof (induction xs)
  case Nil
  then show ?case by simp
next
  case (Cons x xs)
  show ?case
  proof (cases "fst x = k")
    case True
    have "\<forall>e \<in> set xs. fst x < fst e" using Cons.prems(1) by simp
    then have "\<forall>e \<in> set xs. fst e \<noteq> k" using True by fastforce
    then have "filter (\<lambda>e. fst e = k) xs = []" by (simp add: filter_empty_conv)
    then show ?thesis using True Cons.prems(2) by (cases x) simp
  next
    case False
    then show ?thesis using Cons by (cases x) auto
  qed
qed

lemma size_stc [simp]: "size_avl (stc t nf) = of_nat (length (entries t))"
  by (simp add: size_avl_def stc_def)

lemma hasKey_bool:
  "tinv t nf \<Longrightarrow> hasKey (stc t nf) k = ok True \<longleftrightarrow> amap t k \<noteq> None"
  "tinv t nf \<Longrightarrow> hasKey (stc t nf) k = ok False \<longleftrightarrow> amap t k = None"
  by (simp_all add: hasKey_stc)

text \<open>
  Claim C2. In every map reachable from the empty map, the entries of the tree read in
  order (left subtree, node, right subtree) have strictly ascending keys; every node's
  key is greater than all keys of its left subtree and less than all keys of its right
  subtree; and the keys in the tree are exactly those for which \<^verbatim>\<open>hasKey\<close> is true.
\<close>

theorem C2_bst_order:
  assumes "reachable m"
  shows "\<exists>t. represents m t \<and> sorted_wrt (<) (map fst (entries t)) \<and> ordered t \<and>
     (\<forall>k. hasKey m k = ok (k \<in> set (map fst (entries t))))"
proof -
  from assms obtain t nf where m: "m = stc t nf" "tinv t nf" by (rule reachable_cases)
  have "bst t" using m(2) by (simp add: tinv_def)
  then have "sorted_wrt (<) (map fst (entries t))" "ordered t"
    by (simp_all add: bst_ordered) (simp add: bst_def)
  moreover have "hasKey m k = ok (k \<in> set (map fst (entries t)))" for k
    unfolding m(1) hasKey_stc [OF m(2)] amap_keys ..
  ultimately show ?thesis
    using stc_represents [OF m(2)] m(1) by blast
qed

theorem C2_bst_order_witness:
  "reachable example_map \<and>
   (\<exists>t. represents example_map t \<and> sorted_wrt (<) (map fst (entries t)) \<and> ordered t \<and>
      (\<forall>k. hasKey example_map k = ok (k \<in> set (map fst (entries t)))))"
  using C2_bst_order [OF example_reachable] example_reachable by blast

text \<open>
  Claim C3. On every reachable map \<^verbatim>\<open>update(k, v)\<close> returns; afterwards \<^verbatim>\<open>at(k)\<close> is
  \<open>v\<close> and \<^verbatim>\<open>hasKey(k)\<close> is true. If \<open>k\<close> was absent, \<^verbatim>\<open>size()\<close> is one more (in
  \<^verbatim>\<open>unsigned int\<close> arithmetic) and a traversal visits one entry more; if \<open>k\<close> was present,
  \<^verbatim>\<open>size()\<close> and the number of entries are unchanged. In both cases a traversal meets
  exactly one entry with key \<open>k\<close>, and it holds \<open>v\<close>.
\<close>

theorem C3_update:
  assumes "reachable m"
  shows "\<exists>m' kvs kvs'. update m k v = ok m' \<and> at m' k = ok v \<and> hasKey m' k = ok True \<and>
     traverse m = ok kvs \<and> traverse m' = ok kvs' \<and>
     filter (\<lambda>e. fst e = k) kvs' = [(k, v)] \<and>
     (hasKey m k = ok False \<or> hasKey m k = ok True) \<and>
     (hasKey m k = ok False \<longrightarrow> size_avl m' = size_avl m + 1 \<and> length kvs' = length kvs + 1) \<and>
     (hasKey m k = ok True \<longrightarrow> size_avl m' = size_avl m \<and> length kvs' = length kvs)"
proof -
  from assms obtain t nf where m: "m = stc t nf" "tinv t nf" by (rule reachable_cases)
  let ?t' = "upd_t nf k v t" and ?nf' = "if amap t k = None then Suc nf else nf"
  note u = update_stc_eq [OF m(2), of k v] and i = update_stc_inv [OF m(2), of k v]
  have at: "at (stc ?t' ?nf') k = ok v"
    unfolding at_stc [OF i(1)] i(2) by simp
  have hk: "hasKey (stc ?t' ?nf') k = ok True"
    unfolding hasKey_stc [OF i(1)] i(2) by simp
  have "sorted_wrt (<) (map fst (entries ?t'))" "map_of (entries ?t') k = Some v"
    using i(1,2) by (simp_all add: tinv_def bst_def amap_def)
  then have f: "filter (\<lambda>e. fst e = k) (entries ?t') = [(k, v)]"
    by (rule filter_key)
  show ?thesis
    unfolding m(1)
    apply (rule exI [of _ "stc ?t' ?nf'"])
    apply (rule exI [of _ "entries t"])
    apply (rule exI [of _ "entries ?t'"])
    using u at hk f i(3) traverse_stc [OF m(2)] traverse_stc [OF i(1)]
    apply (simp add: hasKey_stc [OF m(2)])
    done
qed

theorem C3_update_witness:
  "reachable example_map \<and>
   (\<exists>m' kvs kvs'. update example_map 2 7 = ok m' \<and> at m' 2 = ok 7 \<and> hasKey m' 2 = ok True \<and>
     traverse example_map = ok kvs \<and> traverse m' = ok kvs' \<and>
     filter (\<lambda>e. fst e = 2) kvs' = [(2, 7)] \<and>
     hasKey example_map 2 = ok True \<and> size_avl m' = size_avl example_map \<and>
     length kvs' = length kvs)"
proof -
  have "hasKey example_map 2 = ok True"
    unfolding example_map_def hasKey_stc [OF example_tinv]
    by (simp add: amap_def example_tree_def)
  then show ?thesis
    using C3_update [OF example_reachable, of 2 7] example_reachable by fastforce
qed

text \<open>
  Claim C4. On every reachable map \<^verbatim>\<open>remove(k)\<close> stops at its first assertion exactly
  when \<open>k\<close> is absent. When \<open>k\<close> is present it returns; afterwards \<^verbatim>\<open>hasKey(k)\<close> is false,
  \<^verbatim>\<open>size()\<close> is one less (in \<^verbatim>\<open>unsigned int\<close> arithmetic), a traversal visits one entry
  less, and every other key is present or absent as before, with the same item.
\<close>

theorem C4_remove:
  assumes "reachable m"
  shows "(hasKey m k = ok False \<or> hasKey m k = ok True) \<and>
     (remove m k = fail Assert_remove \<longleftrightarrow> hasKey m k = ok False) \<and>
     (hasKey m k = ok True \<longrightarrow>
        (\<exists>m' kvs kvs'. remove m k = ok m' \<and> hasKey m' k = ok False \<and>
           size_avl m' = size_avl m - 1 \<and>
           traverse m = ok kvs \<and> traverse m' = ok kvs' \<and> Suc (length kvs') = length kvs \<and>
           (\<forall>k'. k' \<noteq> k \<longrightarrow> hasKey m' k' = hasKey m k' \<and> at m' k' = at m k')))"
proof -
  from assms obtain t nf where m: "m = stc t nf" "tinv t nf" by (rule reachable_cases)
  show ?thesis
  proof (cases "amap t k = None")
    case True
    then show ?thesis
      unfolding m(1) using remove_stc_absent [OF m(2) True] by (simp add: hasKey_stc [OF m(2)])
  next
    case False
    note r = remove_stc_eq [OF m(2) False] and i = remove_stc_inv [OF m(2) False]
    have sz: "size_avl (stc (rem_t k t) nf) = size_avl (stc t nf) - 1"
      using i(3) [symmetric] by simp
    have "\<exists>m' kvs kvs'. remove (stc t nf) k = ok m' \<and> hasKey m' k = ok False \<and>
           size_avl m' = size_avl (stc t nf) - 1 \<and>
           traverse (stc t nf) = ok kvs \<and> traverse m' = ok kvs' \<and> Suc (length kvs') = length kvs \<and>
           (\<forall>k'. k' \<noteq> k \<longrightarrow> hasKey m' k' = hasKey (stc t nf) k' \<and> at m' k' = at (stc t nf) k')"
      apply (rule exI [of _ "stc (rem_t k t) nf"])
      apply (rule exI [of _ "entries t"])
      apply (rule exI [of _ "entries (rem_t k t)"])
      using r sz i(3) traverse_stc [OF m(2)] traverse_stc [OF i(1)]
      apply (simp add: hasKey_stc [OF m(2)] hasKey_stc [OF i(1)] at_stc [OF m(2)] at_stc [OF i(1)] i(2)
          del: size_stc)
      done
    then show ?thesis
      unfolding m(1) using False r by (simp add: hasKey_stc [OF m(2)] del: size_stc)
  qed
qed

theorem C4_remove_witness:
  "reachable example_map \<and> hasKey example_map 2 = ok True \<and>
   remove example_map 2 \<noteq> fail Assert_remove \<and>
   (\<exists>m' kvs kvs'. remove example_map 2 = ok m' \<and> hasKey m' 2 = ok False \<and>
      size_avl m' = size_avl example_map - 1 \<and>
      traverse example_map = ok kvs \<and> traverse m' = ok kvs' \<and> Suc (length kvs') = length kvs \<and>
      hasKey m' 3 = hasKey example_map 3 \<and> at m' 3 = at example_map 3) \<and>
   hasKey example_map 5 = ok False \<and> remove example_map 5 = fail Assert_remove"
proof -
  have 1: "hasKey example_map 2 = ok True" and 2: "hasKey example_map 5 = ok False"
    unfolding example_map_def hasKey_stc [OF example_tinv]
    by (simp_all add: amap_def example_tree_def)
  have 3: "(2::nat) \<noteq> 3" by simp
  show ?thesis
    using C4_remove [OF example_reachable, of 2] C4_remove [OF example_reachable, of 5]
      example_reachable 1 2 3
    by (simp only: simp_thms) fastforce
qed

text \<open>
  Claim C6. On every reachable map \<^verbatim>\<open>update\<close> returns, and \<^verbatim>\<open>remove\<close> returns or stops
  at its own first assertion (the key is absent): the loop of \<^verbatim>\<open>fixUp\<close> that they start
  runs to its end, so at every node it visits \<^verbatim>\<open>abs(lh-rh) <= 2\<close> holds and the
  assertion of \<^verbatim>\<open>fixUp\<close> does not fail.
\<close>

theorem C6_fixUp_assert:
  assumes "reachable m"
  shows "(\<exists>m'. update m k v = ok m') \<and>
     (remove m k' = fail Assert_remove \<or> (\<exists>m'. remove m k' = ok m')) \<and>
     update m k v \<noteq> fail Assert_fixUp \<and> remove m k' \<noteq> fail Assert_fixUp"
proof -
  from assms obtain t nf where m: "m = stc t nf" "tinv t nf" by (rule reachable_cases)
  have "\<exists>m'. update m k v = ok m'"
    unfolding m(1) using update_stc_eq [OF m(2), of k v] by blast
  moreover have "remove m k' = fail Assert_remove \<or> (\<exists>m'. remove m k' = ok m')"
    unfolding m(1) using remove_stc_absent [OF m(2), of k'] remove_stc_eq [OF m(2), of k']
    by blast
  ultimately show ?thesis by auto
qed

theorem C6_fixUp_assert_witness:
  "reachable example_map \<and>
   (\<exists>m'. update example_map 4 40 = ok m') \<and>
   (remove example_map 1 = fail Assert_remove \<or> (\<exists>m'. remove example_map 1 = ok m')) \<and>
   update example_map 4 40 \<noteq> fail Assert_fixUp \<and> remove example_map 1 \<noteq> fail Assert_fixUp"
  using C6_fixUp_assert [OF example_reachable, of 4 40 1] example_reachable by blast

lemma cell_key_in:
  assumes "tinv t nf" "heap (stc t nf) b = Some nd"
  shows "key nd \<in> set (map fst (entries t))"
proof -
  from assms obtain c l a k v h r where z: "plug c (Nd l a k v h r) = t"
      "nd = \<lparr>key = k, item = v, left = raddr l, right = raddr r, parent = cpar c, height = h\<rparr>"
    by (rule heap_stc_zipper)
  show ?thesis unfolding z(1) [symmetric] by (simp add: entries_plug z(2))
qed

lemma gt_allD: "gt_all B x \<Longrightarrow> y \<in> set (map fst B) \<Longrightarrow> x < y"
  by (auto simp: gt_all_def)

lemma lt_allD: "lt_all A x \<Longrightarrow> y \<in> set (map fst A) \<Longrightarrow> y < x"
  by (auto simp: lt_all_def)

lemma keys_Cons: "y \<in> set (map fst (A @ (k, v) # B)) \<longleftrightarrow>
    y \<in> set (map fst A) \<or> y = k \<or> y \<in> set (map fst B)"
  by auto

lemma begin_stc:
  assumes "tinv t nf"
  shows "t = Lf \<Longrightarrow> begin_avl (stc t nf) = ok None"
    and "t \<noteq> Lf \<Longrightarrow> \<exists>a nd. begin_avl (stc t nf) = ok (Some a) \<and> heap (stc t nf) a = Some nd \<and>
           (\<forall>k \<in> set (map fst (entries t)). key nd \<le> k)"
proof -
  show "t = Lf \<Longrightarrow> begin_avl (stc t nf) = ok None"
    by (simp add: begin_avl_def AVLIterator_def stc_def)
  assume nl: "t \<noteq> Lf"
  have d: "dist t" and b: "bst t" using assms by (auto simp: tinv_def)
  obtain c' t' where lm: "lmost [] t = (c', t')" by (cases "lmost [] t")
  note lr = lmost_rest [OF lm nl]
  obtain l a k v h r where t': "t' = Nd l a k v h r" using lr by (cases t') auto
  have dz: "distz [] t" using d by (simp add: distz_def)
  have dz': "distz c' t'" using lmost_plug [OF lm] dz by (simp add: dist_plug [symmetric])
  have e: "stz c' t' n nf = st t n nf" for n
    using lmost_plug [OF lm] dz' by (simp add: stz_plug)
  obtain a0 where a0: "raddr t = Some a0" using nl by (cases t) auto
  have "leftmost (st t n nf) (raddr t) = ok (Some a)" for n
    using leftmost_focus [OF dz nl, of n nf] lm t' by (simp add: stz_Nil)
  then have 1: "begin_avl (stc t nf) = ok (Some a)"
    by (simp add: begin_avl_def AVLIterator_def stc_def a0)
  have 2: "heap (stc t nf) a = Some \<lparr>key = k, item = v, left = raddr l, right = raddr r, parent = cpar c', height = h\<rparr>"
    unfolding stc_def e [symmetric] t' by (rule heap_stz_focus)
  have et: "entries t = [] @ (k, v) # (entries r @ cright c')" using lr by (simp add: t')
  have "gt_all (entries r @ cright c') k"
    using b unfolding bst_def et sorted_mid by simp
  then have "k \<le> x" if "x \<in> set (map fst (entries t))" for x
    using that gt_allD [of "entries r @ cright c'" k x] unfolding et keys_Cons by fastforce
  then have "\<forall>x \<in> set (map fst (entries t)). k \<le> x" by blast
  then show "\<exists>a nd. begin_avl (stc t nf) = ok (Some a) \<and> heap (stc t nf) a = Some nd \<and>
           (\<forall>k \<in> set (map fst (entries t)). key nd \<le> k)"
    using 1 2 by simp
qed

lemma advance_stc:
  assumes "tinv t nf" "heap (stc t nf) a = Some nd"
  shows "\<exists>it. advance (stc t nf) (Some a) = ok it \<and>
     (case it of
        None \<Rightarrow> (\<forall>k \<in> set (map fst (entries t)). k \<le> key nd)
      | Some b \<Rightarrow> (\<exists>nd'. heap (stc t nf) b = Some nd' \<and> key nd < key nd' \<and>
            (\<forall>k \<in> set (map fst (entries t)). key nd < k \<longrightarrow> key nd' \<le> k)))"
proof -
  from assms obtain c l a' k v h r where z: "plug c (Nd l a' k v h r) = t" "a' = a"
      "distz c (Nd l a' k v h r)"
      "stc t nf = stz c (Nd l a' k v h r) (of_nat (length (entries t))) nf"
      "nd = \<lparr>key = k, item = v, left = raddr l, right = raddr r, parent = cpar c, height = h\<rparr>"
    by (rule heap_stc_zipper)
  let ?T = "Nd l a' k v h r"
  let ?A = "cleft c @ entries l" and ?B = "entries r @ cright c"
  have e: "entries t = ?A @ (k, v) # ?B" unfolding z(1) [symmetric] by (simp add: entries_plug)
  have s: "sorted_wrt (<) (map fst (?A @ (k, v) # ?B))"
    using assms(1) unfolding tinv_def bst_def e by simp
  then have lt: "lt_all ?A k" and gt: "gt_all ?B k" and sB: "sorted_wrt (<) (map fst ?B)"
    unfolding sorted_mid by simp_all
  have adv: "advance (stc t nf) (Some a) = ok (zaddr (znext c ?T))"
    unfolding z(4) using advance_focus [OF z(3), of "of_nat (length (entries t))" nf] z(2) by simp
  have kn: "key nd = k" by (simp add: z(5))
  show ?thesis
  proof (cases "znext c ?T")
    case None
    have B: "?B = []" using znext_None [OF None] by simp
    have "x \<le> k" if "x \<in> set (map fst (entries t))" for x
      using that lt_allD [OF lt, of x] unfolding e B keys_Cons by fastforce
    then have "\<forall>x \<in> set (map fst (entries t)). x \<le> k" by blast
    then show ?thesis using adv None kn by simp
  next
    case (Some zz)
    obtain c' t' where zz: "zz = (c', t')" by (cases zz)
    note zs = znext_Some [OF Some [unfolded zz]]
    obtain l' b k' v' h' r' where t': "t' = Nd l' b k' v' h' r'" using zs by (cases t') auto
    have dz': "distz c' t'" using zs z(3) by (simp add: dist_plug [symmetric])
    have "stc t nf = stz c' t' (of_nat (length (entries t))) nf"
      unfolding z(4) using zs z(3) dz' by (simp add: stz_plug)
    then have hb: "heap (stc t nf) b = Some \<lparr>key = k', item = v', left = raddr l', right = raddr r', parent = cpar c', height = h'\<rparr>"
      unfolding t' by (simp add: heap_stz_focus)
    have B: "?B = (k', v') # entries r' @ cright c'" using zs by (simp add: t')
    have kk: "k < k'" using gt unfolding B by (simp add: gt_all_def)
    have gB: "gt_all (entries r' @ cright c') k'"
      using sB unfolding B using sorted_mid [of "[]" k' v' "entries r' @ cright c'"] by simp
    have "k' \<le> x" if "x \<in> set (map fst (entries t))" "k < x" for x
    proof -
      have "x \<in> set (map fst ?A) \<or> x = k \<or> x \<in> set (map fst ([] @ (k', v') # (entries r' @ cright c')))"
        using that(1) unfolding e B keys_Cons by simp
      then consider "x \<in> set (map fst ?A)" | "x = k" | "x = k'" | "x \<in> set (map fst (entries r' @ cright c'))"
        unfolding keys_Cons by auto
      then show ?thesis
      proof cases
        case 1
        then show ?thesis using lt_allD [OF lt, of x] that(2) by simp
      next
        case 2
        then show ?thesis using that(2) by simp
      next
        case 3
        then show ?thesis by simp
      next
        case 4
        then show ?thesis using gt_allD [OF gB, of x] by simp
      qed
    qed
    then have "\<forall>x \<in> set (map fst (entries t)). k < x \<longrightarrow> k' \<le> x" by blast
    then show ?thesis using adv Some zz t' hb kn kk by simp
  qed
qed

lemma entries_at:
  assumes "tinv t nf" "(k, v) \<in> set (entries t)"
  shows "at (stc t nf) k = ok v"
proof -
  have "sorted_wrt (<) (map fst (entries t))" using assms(1) by (simp add: tinv_def bst_def)
  then have "distinct (map fst (entries t))" by (simp add: strict_sorted_iff)
  then have "map_of (entries t) k = Some v" using assms(2) by simp
  then show ?thesis by (simp add: at_stc [OF assms(1)] amap_def)
qed

text \<open>
  Claim C5. On every reachable map: \<^verbatim>\<open>end()\<close> is the null iterator; on the empty map
  \<^verbatim>\<open>begin()\<close> equals \<^verbatim>\<open>end()\<close>, otherwise \<^verbatim>\<open>begin()\<close> is at a node with the least key; one
  \<^verbatim>\<open>advance\<close> from a node \<open>X\<close> leads to the node with the least key greater than the key
  of \<open>X\<close>, or to the end iterator when \<open>X\<close> has the greatest key; and the traversal from
  \<^verbatim>\<open>begin()\<close> to \<^verbatim>\<open>end()\<close> returns, visits the keys in strictly ascending order, visits
  exactly the keys for which \<^verbatim>\<open>hasKey\<close> is true, each with its item.
\<close>

theorem C5_iterator:
  assumes "reachable m"
  shows "end_avl m = ok None \<and>
     (root m = None \<longrightarrow> begin_avl m = end_avl m) \<and>
     (root m \<noteq> None \<longrightarrow>
        (\<exists>a n. begin_avl m = ok (Some a) \<and> heap m a = Some n \<and>
           (\<forall>b n'. heap m b = Some n' \<longrightarrow> key n \<le> key n'))) \<and>
     (\<forall>a n. heap m a = Some n \<longrightarrow>
        (\<exists>it. advance m (Some a) = ok it \<and>
           (case it of
              None \<Rightarrow> (\<forall>b n'. heap m b = Some n' \<longrightarrow> key n' \<le> key n)
            | Some b \<Rightarrow> (\<exists>n'. heap m b = Some n' \<and> key n < key n' \<and>
                  (\<forall>c n''. heap m c = Some n'' \<and> key n < key n'' \<longrightarrow> key n' \<le> key n''))))) \<and>
     (\<exists>kvs. traverse m = ok kvs \<and> sorted_wrt (<) (map fst kvs) \<and>
        (\<forall>k. hasKey m k = ok (k \<in> set (map fst kvs))) \<and>
        (\<forall>k v. (k, v) \<in> set kvs \<longrightarrow> at m k = ok v))"
proof -
  from assms obtain t nf where m: "m = stc t nf" "tinv t nf" by (rule reachable_cases)
  have ci: "key n' \<in> set (map fst (entries t))" if "heap (stc t nf) b = Some n'" for b n'
    using cell_key_in [OF m(2) that] .
  have rt: "root (stc t nf) = None \<longleftrightarrow> t = Lf" by (cases t) (simp_all add: stc_def)
  have 1: "root m = None \<longrightarrow> begin_avl m = end_avl m"
    unfolding m(1) using begin_stc(1) [OF m(2)] by (simp add: rt)
  have 2: "root m \<noteq> None \<longrightarrow>
        (\<exists>a n. begin_avl m = ok (Some a) \<and> heap m a = Some n \<and>
           (\<forall>b n'. heap m b = Some n' \<longrightarrow> key n \<le> key n'))"
  proof
    assume "root m \<noteq> None"
    then have "t \<noteq> Lf" using rt by (simp add: m(1))
    from begin_stc(2) [OF m(2) this] obtain a nd where
      b: "begin_avl (stc t nf) = ok (Some a)" "heap (stc t nf) a = Some nd"
        "\<forall>k \<in> set (map fst (entries t)). key nd \<le> k"
      by blast
    have "\<forall>b n'. heap (stc t nf) b = Some n' \<longrightarrow> key nd \<le> key n'"
      using b(3) ci by blast
    then show "\<exists>a n. begin_avl m = ok (Some a) \<and> heap m a = Some n \<and>
           (\<forall>b n'. heap m b = Some n' \<longrightarrow> key n \<le> key n')"
      unfolding m(1) using b(1,2) by blast
  qed
  have 3: "\<exists>it. advance m (Some a) = ok it \<and>
           (case it of
              None \<Rightarrow> (\<forall>b n'. heap m b = Some n' \<longrightarrow> key n' \<le> key n)
            | Some b \<Rightarrow> (\<exists>n'. heap m b = Some n' \<and> key n < key n' \<and>
                  (\<forall>c n''. heap m c = Some n'' \<and> key n < key n'' \<longrightarrow> key n' \<le> key n'')))"
    if h: "heap m a = Some n" for a n
  proof -
    from advance_stc [OF m(2) h [unfolded m(1)]] obtain it where
      it: "advance (stc t nf) (Some a) = ok it"
        "case it of None \<Rightarrow> (\<forall>k \<in> set (map fst (entries t)). k \<le> key n)
          | Some b \<Rightarrow> (\<exists>nd'. heap (stc t nf) b = Some nd' \<and> key n < key nd' \<and>
            (\<forall>k \<in> set (map fst (entries t)). key n < k \<longrightarrow> key nd' \<le> k))"
      by blast
    show ?thesis
    proof (cases it)
      case None
      have "\<forall>b n'. heap (stc t nf) b = Some n' \<longrightarrow> key n' \<le> key n"
        using it(2) ci unfolding None by fastforce
      then show ?thesis unfolding m(1) using it(1) None by auto
    next
      case (Some b)
      from it(2) obtain nd' where nd': "heap (stc t nf) b = Some nd'" "key n < key nd'"
          "\<forall>k \<in> set (map fst (entries t)). key n < k \<longrightarrow> key nd' \<le> k"
        unfolding Some by auto
      have "\<forall>c n''. heap (stc t nf) c = Some n'' \<and> key n < key n'' \<longrightarrow> key nd' \<le> key n''"
        using nd'(3) ci by blast
      then show ?thesis unfolding m(1) using it(1) Some nd'(1,2) by auto
    qed
  qed
  have 4: "\<exists>kvs. traverse m = ok kvs \<and> sorted_wrt (<) (map fst kvs) \<and>
        (\<forall>k. hasKey m k = ok (k \<in> set (map fst kvs))) \<and>
        (\<forall>k v. (k, v) \<in> set kvs \<longrightarrow> at m k = ok v)"
  proof -
    have hk: "hasKey (stc t nf) k = ok (k \<in> set (map fst (entries t)))" for k
      unfolding hasKey_stc [OF m(2)] amap_keys ..
    have "sorted_wrt (<) (map fst (entries t))" using m(2) by (simp add: tinv_def bst_def)
    then show ?thesis
      unfolding m(1) using traverse_stc [OF m(2)] entries_at [OF m(2)] hk by blast
  qed
  show ?thesis using 1 2 3 4 by simp
qed

lemma example_heap:
  "heap example_map 0 = Some \<lparr>key = 1, item = 10, left = None, right = None, parent = Some 1, height = 0\<rparr>"
  "heap example_map 1 = Some \<lparr>key = 2, item = 20, left = Some 0, right = Some 2, parent = None, height = 1\<rparr>"
  "heap example_map 2 = Some \<lparr>key = 3, item = 30, left = None, right = None, parent = Some 1, height = 0\<rparr>"
  "root example_map = Some 1"
  by (simp_all add: example_map_def example_tree_def stc_def map_add_app)

theorem C5_iterator_witness:
  "reachable example_map \<and> end_avl example_map = ok None \<and> root example_map \<noteq> None \<and>
   (\<exists>a n. begin_avl example_map = ok (Some a) \<and> heap example_map a = Some n \<and> key n \<le> 2) \<and>
   heap example_map 1 = Some \<lparr>key = 2, item = 20, left = Some 0, right = Some 2, parent = None, height = 1\<rparr> \<and>
   (\<exists>it. advance example_map (Some 1) = ok it \<and> it \<noteq> None \<and> it \<noteq> Some 0) \<and>
   (\<exists>kvs. traverse example_map = ok kvs \<and> sorted_wrt (<) (map fst kvs))"
proof -
  note c = C5_iterator [OF example_reachable]
  have r: "root example_map \<noteq> None" by (simp add: example_heap)
  have c2: "\<exists>a n. begin_avl example_map = ok (Some a) \<and> heap example_map a = Some n \<and>
           (\<forall>b n'. heap example_map b = Some n' \<longrightarrow> key n \<le> key n')"
    using conjunct1 [OF conjunct2 [OF conjunct2 [OF c]]] r by (rule mp)
  then obtain a n where b: "begin_avl example_map = ok (Some a)" "heap example_map a = Some n"
      "\<forall>b n'. heap example_map b = Some n' \<longrightarrow> key n \<le> key n'"
    by blast
  have b2: "key n \<le> 2" using b(3) [rule_format, OF example_heap(2)] by simp
  note c3 = spec [OF spec [OF conjunct1 [OF conjunct2 [OF conjunct2 [OF conjunct2 [OF c]]]]], of 1]
  let ?N = "\<lparr>key = 2::nat, item = 20::nat, left = Some 0, right = Some 2, parent = None, height = 1\<rparr>"
  from mp [OF c3 example_heap(2)] obtain it where adv: "advance example_map (Some 1) = ok it"
    and cs: "case it of
        None \<Rightarrow> (\<forall>b n'. heap example_map b = Some n' \<longrightarrow> key n' \<le> key ?N)
      | Some b \<Rightarrow> (\<exists>n'. heap example_map b = Some n' \<and> key ?N < key n' \<and>
            (\<forall>c n''. heap example_map c = Some n'' \<and> key ?N < key n'' \<longrightarrow> key n' \<le> key n''))"
    by blast
  have "it \<noteq> None"
  proof
    assume "it = None"
    then have "\<forall>b n'. heap example_map b = Some n' \<longrightarrow> key n' \<le> key ?N" using cs by simp
    from this [rule_format, OF example_heap(3)] show False by simp
  qed
  moreover have "it \<noteq> Some 0"
  proof
    assume "it = Some 0"
    then have "\<exists>n'. heap example_map 0 = Some n' \<and> key ?N < key n'" using cs by auto
    then show False by (simp add: example_heap(1))
  qed
  moreover have "\<exists>kvs. traverse example_map = ok kvs \<and> sorted_wrt (<) (map fst kvs)"
    using conjunct2 [OF conjunct2 [OF conjunct2 [OF conjunct2 [OF c]]]] by blast
  ultimately show ?thesis
    using conjunct1 [OF c] example_reachable r b(1,2) b2 adv example_heap(2) by blast
qed

end
